theory Spec2Isabelle
  imports Main "HOL-Library.Word"
begin

unbundle bit_operations_syntax

section \<open>Machine types\<close>

text \<open>
  The C integer types of \<^verbatim>\<open>chd_stream.c\<close>. Unsigned arithmetic wraps modulo the width.
  \<^verbatim>\<open>int32_t\<close> values are kept as 32-bit words and read with \<open>sint\<close> where the
  source compares them as signed numbers; \<^verbatim>\<open>size_t\<close> and \<^verbatim>\<open>ssize_t\<close> are 64 bits wide
  (an LP64 target), \<^verbatim>\<open>ssize_t\<close> being read with \<open>sint\<close>.
\<close>

type_synonym uint8_t = "8 word"
type_synonym uint16_t = "16 word"
type_synonym uint32_t = "32 word"
type_synonym int32_t = "32 word"
type_synonym size_t = "64 word"
type_synonym ssize_t = "64 word"

section \<open>The storage engine\<close>

record chd_header =
  hunkbytes :: uint32_t
  unitbytes :: uint32_t

datatype chd_tag =
  CDROM_TRACK_METADATA2_TAG | CDROM_TRACK_METADATA_TAG | GDROM_TRACK_METADATA_TAG

text \<open>
  One metadata entry of the container, as the fields that \<^verbatim>\<open>sscanf\<close> extracts from its
  text with the format string of the entry's tag.
\<close>

record track_text =
  t_track :: uint32_t
  t_type :: string
  t_subtype :: string
  t_frames :: uint32_t
  t_pad :: uint32_t
  t_pregap :: uint32_t
  t_pgtype :: string
  t_pgsub :: string
  t_postgap :: uint32_t

text \<open>
  An open container: its header, its hunks (\<open>None\<close> marks a hunk that cannot be
  decompressed; hunk numbers beyond the table are out of range), its metadata entries,
  one list for each tag, and the trace of the \<^verbatim>\<open>chd_read\<close> calls made so far on this session.
\<close>

record chd_file =
  header :: chd_header
  hunks :: "uint8_t list option list"
  cdrom2_entries :: "track_text list"
  cdrom_entries :: "track_text list"
  gdrom_entries :: "track_text list"
  read_calls :: "uint32_t list"

definition metadata :: "chd_file \<Rightarrow> chd_tag \<Rightarrow> track_text list" where
  "metadata chd tag =
     (case tag of
        CDROM_TRACK_METADATA2_TAG \<Rightarrow> cdrom2_entries chd
      | CDROM_TRACK_METADATA_TAG \<Rightarrow> cdrom_entries chd
      | GDROM_TRACK_METADATA_TAG \<Rightarrow> gdrom_entries chd)"

text \<open>
  Modelled from the spec: \<^verbatim>\<open>chd_get_header\<close>, \<^verbatim>\<open>chd_get_metadata\<close> and \<^verbatim>\<open>chd_read\<close> of
  libchdr are not in src. Section 6 of the spec gives their contract:
  \<^verbatim>\<open>get_header(session) -> {hunk_byte_size, native_unit_byte_size}\<close>,
  \<^verbatim>\<open>get_metadata_record(session, tag, index) -> raw_text | absent\<close> and
  \<^verbatim>\<open>read_hunk(session, hunk_number, out_buffer[hunk_byte_size]) -> ok | error\<close>.
  A failed \<^verbatim>\<open>chd_read\<close> leaves the buffer as it was.
\<close>

definition chd_get_header :: "chd_file \<Rightarrow> chd_header" where
  "chd_get_header chd = header chd"

definition chd_get_metadata :: "chd_file \<Rightarrow> chd_tag \<Rightarrow> uint32_t \<Rightarrow> track_text option" where
  "chd_get_metadata chd tag idx =
     (if unat idx < length (metadata chd tag) then Some (metadata chd tag ! unat idx) else None)"

definition chd_read :: "chd_file \<Rightarrow> uint32_t \<Rightarrow> uint8_t list \<Rightarrow> chd_file \<times> uint8_t list option" where
  "chd_read chd hunknum buffer =
     (chd\<lparr>read_calls := read_calls chd @ [hunknum]\<rparr>,
      if unat hunknum < length (hunks chd) then hunks chd ! unat hunknum else None)"

section \<open>Track metadata\<close>

definition SECTOR_SIZE :: uint32_t where "SECTOR_SIZE = 2352"
definition TRACK_PAD :: uint32_t where "TRACK_PAD = 4"

record metadata_t =
  type :: string
  subtype :: string
  pgtype :: string
  pgsub :: string
  frame_offset :: uint32_t
  frames :: uint32_t
  pad :: uint32_t
  extra :: uint32_t
  pregap :: uint32_t
  postgap :: uint32_t
  track :: uint32_t

definition padding_frames :: "uint32_t \<Rightarrow> uint32_t" where
  "padding_frames n = ((n + TRACK_PAD - 1) AND NOT (TRACK_PAD - 1)) - n"

text \<open>\<^verbatim>\<open>memset(md, 0, sizeof(*md))\<close>: every string empty, every number zero.\<close>

definition metadata_zero :: metadata_t where
  "metadata_zero =
     \<lparr>type = [], subtype = [], pgtype = [], pgsub = [], frame_offset = 0, frames = 0,
      pad = 0, extra = 0, pregap = 0, postgap = 0, track = 0\<rparr>"

text \<open>
  \<^verbatim>\<open>chdstream_get_meta\<close> returns its boolean result together with the contents of
  \<^verbatim>\<open>*md\<close> after the call. \<^verbatim>\<open>*md\<close> is cleared first, on every call, so a call that finds
  no entry leaves it all zero.
\<close>

definition chdstream_get_meta :: "chd_file \<Rightarrow> uint32_t \<Rightarrow> bool \<times> metadata_t" where
  "chdstream_get_meta chd idx =
     (let md = metadata_zero in
      case chd_get_metadata chd CDROM_TRACK_METADATA2_TAG idx of
        Some t \<Rightarrow>
          (let md = md\<lparr>track := t_track t, type := t_type t, subtype := t_subtype t,
                        frames := t_frames t, pregap := t_pregap t, pgtype := t_pgtype t,
                        pgsub := t_pgsub t, postgap := t_postgap t\<rparr>
           in (True, md\<lparr>extra := padding_frames (frames md)\<rparr>))
      | None \<Rightarrow>
     (case chd_get_metadata chd CDROM_TRACK_METADATA_TAG idx of
        Some t \<Rightarrow>
          (let md = md\<lparr>track := t_track t, type := t_type t, subtype := t_subtype t,
                        frames := t_frames t\<rparr>
           in (True, md\<lparr>extra := padding_frames (frames md)\<rparr>))
      | None \<Rightarrow>
     (case chd_get_metadata chd GDROM_TRACK_METADATA_TAG idx of
        Some t \<Rightarrow>
          (let md = md\<lparr>track := t_track t, type := t_type t, subtype := t_subtype t,
                        frames := t_frames t, pad := t_pad t, pregap := t_pregap t,
                        pgtype := t_pgtype t, pgsub := t_pgsub t, postgap := t_postgap t\<rparr>
           in (True, md\<lparr>extra := padding_frames (frames md)\<rparr>))
      | None \<Rightarrow> (False, md))))"

section \<open>Track lookup\<close>

text \<open>
  The loop of \<^verbatim>\<open>chdstream_find_track_number\<close>: \<open>i\<close> and \<open>fo\<close> are the locals \<^verbatim>\<open>i\<close> and
  \<^verbatim>\<open>frame_offset\<close>. The result is the boolean returned together with \<^verbatim>\<open>*meta\<close>; \<open>None\<close>
  stands for a loop that never returns.
\<close>

partial_function (option) find_track_number_loop ::
  "chd_file \<Rightarrow> int32_t \<Rightarrow> uint32_t \<Rightarrow> uint32_t \<Rightarrow> (bool \<times> metadata_t) option" where
  "find_track_number_loop fd trk i fo =
     (let r = chdstream_get_meta fd i in
      if \<not> fst r then Some (False, snd r)
      else if trk = track (snd r) then Some (True, (snd r)\<lparr>frame_offset := fo\<rparr>)
      else find_track_number_loop fd trk (i + 1) (fo + (frames (snd r) + extra (snd r))))"

declare find_track_number_loop.simps [code]

definition chdstream_find_track_number ::
  "chd_file \<Rightarrow> int32_t \<Rightarrow> (bool \<times> metadata_t) option" where
  "chdstream_find_track_number fd trk = find_track_number_loop fd trk 0 0"

text \<open>
  Modelled from the spec: the selector constants of \<^verbatim>\<open>streams/chd_stream.h\<close> are not in
  src. The spec calls them reserved negative sentinels LAST, FIRST_DATA and PRIMARY;
  they are three distinct negative numbers, which is all that the results below use.
\<close>

definition CHDSTREAM_TRACK_FIRST_DATA :: int32_t where "CHDSTREAM_TRACK_FIRST_DATA = - 1"
definition CHDSTREAM_TRACK_LAST :: int32_t where "CHDSTREAM_TRACK_LAST = - 2"
definition CHDSTREAM_TRACK_PRIMARY :: int32_t where "CHDSTREAM_TRACK_PRIMARY = - 3"

text \<open>
  The loop of \<^verbatim>\<open>chdstream_find_special_track\<close>, which has no exit of its own: the first
  argument bounds the number of iterations, and \<open>None\<close> is a loop that has not returned
  within that bound. The increment of the \<^verbatim>\<open>int32_t\<close> counter wraps.
\<close>

fun find_special_track_loop ::
  "nat \<Rightarrow> chd_file \<Rightarrow> int32_t \<Rightarrow> int32_t \<Rightarrow> int32_t \<Rightarrow> uint32_t \<Rightarrow> (bool \<times> metadata_t) option" where
  "find_special_track_loop 0 fd trk i largest_track largest_size = None"
| "find_special_track_loop (Suc n) fd trk i largest_track largest_size =
     (case chdstream_find_track_number fd i of
        None \<Rightarrow> None
      | Some (found, iter) \<Rightarrow>
          if \<not> found \<and> trk = CHDSTREAM_TRACK_LAST \<and> 1 < sint i then Some (True, iter)
          else if \<not> found \<and> trk = CHDSTREAM_TRACK_PRIMARY \<and> largest_track \<noteq> 0
            then chdstream_find_track_number fd largest_track
          else if trk = CHDSTREAM_TRACK_FIRST_DATA then
            (if type iter \<noteq> ''AUDIO'' then Some (True, iter)
             else find_special_track_loop n fd trk (i + 1) largest_track largest_size)
          else if trk = CHDSTREAM_TRACK_PRIMARY then
            (if type iter \<noteq> ''AUDIO'' \<and> largest_size < frames iter
             then find_special_track_loop n fd trk (i + 1) (track iter) (frames iter)
             else find_special_track_loop n fd trk (i + 1) largest_track largest_size)
          else find_special_track_loop n fd trk (i + 1) largest_track largest_size)"

definition chdstream_find_special_track ::
  "nat \<Rightarrow> chd_file \<Rightarrow> int32_t \<Rightarrow> (bool \<times> metadata_t) option" where
  "chdstream_find_special_track fuel fd trk = find_special_track_loop fuel fd trk 1 0 0"

definition chdstream_find_track ::
  "nat \<Rightarrow> chd_file \<Rightarrow> int32_t \<Rightarrow> (bool \<times> metadata_t) option" where
  "chdstream_find_track fuel fd trk =
     (if sint trk < 0 then chdstream_find_special_track fuel fd trk
      else chdstream_find_track_number fd trk)"

section \<open>The stream\<close>

record chdstream =
  chd :: chd_file
  swab :: bool
  frame_size :: uint32_t
  frame_offset :: uint32_t
  frames_per_hunk :: uint32_t
  track_frame :: uint32_t
  track_start :: size_t
  track_end :: size_t
  offset :: size_t
  hunknum :: int32_t
  hunkmem :: "uint8_t list"

text \<open>
  Ways in which a call does not come back to its caller with a value: \<^verbatim>\<open>abort()\<close>, a
  division by zero, and a copy that leaves the source or destination buffer.
\<close>

datatype crash = Aborted | DivByZero | OutOfBounds

datatype open_result = Opened chdstream | OpenFailed | OpenCrashed crash

text \<open>
  \<^verbatim>\<open>malloc(n)\<close>: a block of \<open>n\<close> bytes of indeterminate content, given by \<open>junk\<close>, or
  \<^verbatim>\<open>NULL\<close> when the allocator has nothing to give.
\<close>

definition malloc :: "(nat \<Rightarrow> uint8_t) option \<Rightarrow> uint32_t \<Rightarrow> uint8_t list option" where
  "malloc heap n = (case heap of None \<Rightarrow> None | Some junk \<Rightarrow> Some (map junk [0..<unat n]))"

text \<open>
  \<^verbatim>\<open>chdstream_open\<close>. \<open>opened\<close> is what \<^verbatim>\<open>chd_open(path, CHD_OPEN_READ, NULL, &chd)\<close>
  delivers (\<open>None\<close> for an error), \<open>calloc_ok\<close> tells whether \<^verbatim>\<open>calloc\<close> succeeds and
  \<open>heap\<close> is the outcome of \<^verbatim>\<open>malloc\<close>. Every \<^verbatim>\<open>goto error\<close> is \<open>OpenFailed\<close>. The result
  is \<open>None\<close> when the track lookup has not returned within \<open>fuel\<close> iterations.
\<close>

definition chdstream_open ::
  "nat \<Rightarrow> chd_file option \<Rightarrow> int32_t \<Rightarrow> bool \<Rightarrow> (nat \<Rightarrow> uint8_t) option \<Rightarrow> open_result option" where
  "chdstream_open fuel opened trk calloc_ok heap =
     (case opened of
        None \<Rightarrow> Some OpenFailed
      | Some chd0 \<Rightarrow>
     (case chdstream_find_track fuel chd0 trk of
        None \<Rightarrow> None
      | Some (found, meta) \<Rightarrow>
          if \<not> found then Some OpenFailed
          else if \<not> calloc_ok then Some OpenFailed
          else
            let hd = chd_get_header chd0 in
            (case malloc heap (hunkbytes hd) of
               None \<Rightarrow> Some OpenFailed
             | Some mem \<Rightarrow>
                 let fsize =
                       (if type meta = ''MODE1_RAW'' then SECTOR_SIZE
                        else if type meta = ''MODE2_RAW'' then SECTOR_SIZE
                        else if type meta = ''AUDIO'' then SECTOR_SIZE
                        else unitbytes hd);
                     sw = (type meta = ''AUDIO'');
                     pg = (if type meta = pgtype meta then pregap meta else 0)
                 in
                   if unitbytes hd = 0 then Some (OpenCrashed DivByZero)
                   else Some (Opened
                     \<lparr>chd = chd0, swab = sw, frame_size = fsize, frame_offset = 0,
                      frames_per_hunk = hunkbytes hd div unitbytes hd,
                      track_frame = metadata_t.frame_offset meta,
                      track_start = ucast pg * ucast fsize,
                      track_end = ucast pg * ucast fsize + ucast (frames meta) * ucast fsize,
                      offset = 0, hunknum = - 1, hunkmem = mem\<rparr>))))"

subsection \<open>The hunk cache\<close>

text \<open>
  Modelled from the spec: the macro \<^verbatim>\<open>SWAP16\<close> of \<^verbatim>\<open>retro_endianness.h\<close> is not in src; the
  spec says that every 16-bit word of the hunk is byte-swapped.
\<close>

definition SWAP16 :: "uint16_t \<Rightarrow> uint16_t" where
  "SWAP16 x = push_bit 8 x OR drop_bit 8 x"

text \<open>
  The hunk buffer read and written as an array of \<^verbatim>\<open>uint16_t\<close> (low byte first).
\<close>

definition load16 :: "uint8_t list \<Rightarrow> nat \<Rightarrow> uint16_t" where
  "load16 mem i = ucast (mem ! (2 * i)) OR push_bit 8 (ucast (mem ! (2 * i + 1)))"

definition store16 :: "uint8_t list \<Rightarrow> nat \<Rightarrow> uint16_t \<Rightarrow> uint8_t list" where
  "store16 mem i v = mem[2 * i := ucast v, 2 * i + 1 := ucast (drop_bit 8 v)]"

lemma unat_inc_less: "i < c \<Longrightarrow> unat (i + 1) = Suc (unat i)" for i c :: "'a::len word"
  by unat_arith

function swab_loop :: "uint8_t list \<Rightarrow> uint32_t \<Rightarrow> uint32_t \<Rightarrow> uint8_t list" where
  "swab_loop mem count i =
     (if i < count
      then swab_loop (store16 mem (unat i) (SWAP16 (load16 mem (unat i)))) count (i + 1)
      else mem)"
  by pat_completeness auto
termination
  by (relation "measure (\<lambda>(mem, count, i). unat count - unat i)")
     (auto simp: unat_inc_less word_less_nat_alt)

declare swab_loop.simps [simp del]

text \<open>
  \<^verbatim>\<open>chdstream_load_hunk\<close>. The comparison of the \<^verbatim>\<open>uint32_t\<close> argument with the
  \<^verbatim>\<open>int32_t\<close> field is made on the converted, unsigned values, which is equality of
  the two words.
\<close>

definition chdstream_load_hunk :: "chdstream \<Rightarrow> uint32_t \<Rightarrow> bool \<times> chdstream" where
  "chdstream_load_hunk stream hunk =
     (if hunk = hunknum stream then (True, stream)
      else
        (case chd_read (chd stream) hunk (hunkmem stream) of
           (chd', None) \<Rightarrow> (False, stream\<lparr>chd := chd'\<rparr>)
         | (chd', Some mem) \<Rightarrow>
             (True, stream\<lparr>chd := chd',
                hunkmem :=
                  (if swab stream
                   then swab_loop mem (hunkbytes (chd_get_header chd') div 2) 0
                   else mem),
                hunknum := hunk\<rparr>)))"

subsection \<open>Reading\<close>

text \<open>
  One iteration of the \<^verbatim>\<open>while\<close> loop of \<^verbatim>\<open>chdstream_read\<close>: the stream after it and the
  bytes it has stored at \<^verbatim>\<open>out + data_offset\<close>, or the way in which it crashes. The
  source divides by \<^verbatim>\<open>frame_size\<close> and \<^verbatim>\<open>frames_per_hunk\<close> without a test and calls
  \<^verbatim>\<open>abort()\<close> when the hunk cannot be loaded.
\<close>

definition read_chunk :: "chdstream \<Rightarrow> size_t \<Rightarrow> crash + chdstream \<times> uint8_t list" where
  "read_chunk stream end =
     (if frame_size stream = 0 then Inl DivByZero
      else
        let frame_offs = (ucast (offset stream mod ucast (frame_size stream)) :: uint32_t);
            amount = frame_size stream - frame_offs;
            amount = (if end - offset stream < ucast amount
                      then ucast (end - offset stream) else amount)
        in
          if offset stream < track_start stream
          then Inr (stream\<lparr>offset := offset stream + ucast amount\<rparr>, replicate (unat amount) 0)
          else
            let chd_frame = (ucast (ucast (track_frame stream)
                  + (offset stream - track_start stream) div ucast (frame_size stream)) :: uint32_t)
            in
              if frames_per_hunk stream = 0 then Inl DivByZero
              else
                let hunk = chd_frame div frames_per_hunk stream;
                    hunk_offset = (chd_frame mod frames_per_hunk stream)
                                    * unitbytes (chd_get_header (chd stream))
                in
                  (case chdstream_load_hunk stream hunk of
                     (False, stream') \<Rightarrow> Inl Aborted
                   | (True, stream') \<Rightarrow>
                       let src = unat frame_offs + unat hunk_offset + unat (frame_offset stream')
                       in
                         if length (hunkmem stream') < src + unat amount then Inl OutOfBounds
                         else Inr (stream'\<lparr>offset := offset stream' + ucast amount\<rparr>,
                                   take (unat amount) (drop src (hunkmem stream')))))"

text \<open>The value of the local \<^verbatim>\<open>amount\<close> in an iteration.\<close>

definition chunk_amount :: "chdstream \<Rightarrow> size_t \<Rightarrow> uint32_t" where
  "chunk_amount stream end =
     (let frame_offs = (ucast (offset stream mod ucast (frame_size stream)) :: uint32_t);
          amount = frame_size stream - frame_offs
      in if end - offset stream < ucast amount then ucast (end - offset stream) else amount)"

lemma unat_ucast_32_64: "unat (ucast (x :: uint32_t) :: size_t) = unat x"
proof -
  have "unat x < 2 ^ 32" using unsigned_less [of x] by simp
  then have "unat x < 2 ^ 64" by simp
  then show ?thesis by (simp add: unsigned_ucast_eq take_bit_nat_eq_self)
qed

lemma unat_ucast_64_32: "unat y < 2 ^ 32 \<Longrightarrow> unat (ucast (y :: size_t) :: uint32_t) = unat y"
  by (simp add: unsigned_ucast_eq take_bit_nat_eq_self)

lemma unat_lt_2p32: "unat (x :: uint32_t) < 2 ^ 32"
  using unsigned_less [of x] by simp

lemma unat_lt_2p64: "unat (x :: size_t) < 2 ^ 64"
  using unsigned_less [of x] by simp

lemma unat_frame_offs:
  assumes "fs \<noteq> 0"
  shows "unat (ucast ((off :: size_t) mod ucast (fs :: uint32_t)) :: uint32_t) = unat off mod unat fs"
proof -
  have "unat (off mod ucast fs) = unat off mod unat fs"
    by (simp add: unat_mod unat_ucast_32_64)
  moreover have "unat off mod unat fs < unat fs"
    using assms by (simp add: unat_gt_0)
  moreover have "unat fs < 2 ^ 32"
    by (rule unat_lt_2p32)
  ultimately show ?thesis
    by (simp add: unat_ucast_64_32)
qed

lemma unat_chunk_amount:
  assumes fs: "frame_size s \<noteq> 0" and lt: "offset s < e"
  shows "unat (chunk_amount s e) =
     min (unat (frame_size s) - unat (offset s) mod unat (frame_size s)) (unat e - unat (offset s))"
proof -
  let ?fo = "ucast (offset s mod ucast (frame_size s)) :: uint32_t"
  have fo: "unat ?fo = unat (offset s) mod unat (frame_size s)"
    using fs by (rule unat_frame_offs)
  have "unat ?fo < unat (frame_size s)"
    using fs by (simp add: fo unat_gt_0)
  then have le: "?fo \<le> frame_size s"
    by (simp add: word_le_nat_alt)
  have a0: "unat (frame_size s - ?fo) = unat (frame_size s) - unat (offset s) mod unat (frame_size s)"
    using le by (simp add: unat_sub fo)
  have d: "unat (e - offset s) = unat e - unat (offset s)"
    using lt by (simp add: unat_sub)
  show ?thesis
  proof (cases "e - offset s < ucast (frame_size s - ?fo)")
    case True
    then have "unat (e - offset s) < unat (frame_size s - ?fo)"
      by (simp add: word_less_nat_alt unat_ucast_32_64)
    moreover from this have "unat (e - offset s) < 2 ^ 32"
      using unat_lt_2p32 [of "frame_size s - ?fo"] by simp
    ultimately show ?thesis
      using True by (simp add: chunk_amount_def Let_def unat_ucast_64_32 a0 d)
  next
    case False
    then have "unat (frame_size s - ?fo) \<le> unat (e - offset s)"
      by (simp add: word_less_nat_alt unat_ucast_32_64)
    then show ?thesis
      using False by (simp add: chunk_amount_def Let_def a0 d)
  qed
qed

lemma chunk_amount_bounds:
  assumes fs: "frame_size s \<noteq> 0" and lt: "offset s < e"
  shows "0 < unat (chunk_amount s e)"
    and "unat (offset s) + unat (chunk_amount s e) \<le> unat e"
    and "unat (offset s mod ucast (frame_size s)) + unat (chunk_amount s e) \<le> unat (frame_size s)"
proof -
  have pos: "0 < unat (frame_size s)" using fs by (simp add: unat_gt_0)
  then have m: "unat (offset s) mod unat (frame_size s) < unat (frame_size s)" by simp
  have l: "unat (offset s) < unat e" using lt by (simp add: word_less_nat_alt)
  show "0 < unat (chunk_amount s e)"
    using m l by (simp add: unat_chunk_amount [OF fs lt])
  show "unat (offset s) + unat (chunk_amount s e) \<le> unat e"
    using l by (simp add: unat_chunk_amount [OF fs lt])
  show "unat (offset s mod ucast (frame_size s)) + unat (chunk_amount s e) \<le> unat (frame_size s)"
    using m by (simp add: unat_chunk_amount [OF fs lt] unat_mod unat_ucast_32_64)
qed

lemma unat_offset_advance:
  assumes fs: "frame_size s \<noteq> 0" and lt: "offset s < e"
  shows "unat (offset s + ucast (chunk_amount s e)) = unat (offset s) + unat (chunk_amount s e)"
proof -
  have "unat (offset s) + unat (chunk_amount s e) < 2 ^ 64"
    using chunk_amount_bounds(2) [OF fs lt] unat_lt_2p64 [of e] by simp
  then show ?thesis
    using unat_add_lem [of "offset s" "ucast (chunk_amount s e) :: size_t"]
    by (simp add: unat_ucast_32_64)
qed

lemma load_hunk_fields:
  assumes "chdstream_load_hunk s h = (b, s')"
  shows "offset s' = offset s" and "frame_size s' = frame_size s"
    and "frame_offset s' = frame_offset s" and "frames_per_hunk s' = frames_per_hunk s"
    and "track_frame s' = track_frame s" and "track_start s' = track_start s"
    and "track_end s' = track_end s" and "swab s' = swab s"
    and "header (chd s') = header (chd s)" and "hunks (chd s') = hunks (chd s)"
  using assms
  by (auto simp: chdstream_load_hunk_def chd_read_def split: if_splits option.splits)

lemma read_chunk_Inr:
  assumes r: "read_chunk s e = Inr (s', bs)" and lt: "offset s < e"
  shows "frame_size s \<noteq> 0" and "length bs = unat (chunk_amount s e)"
    and "offset s' = offset s + ucast (chunk_amount s e)"
proof -
  show fs: "frame_size s \<noteq> 0"
    using r by (auto simp: read_chunk_def)
  have "length bs = unat (chunk_amount s e) \<and> offset s' = offset s + ucast (chunk_amount s e)"
    using r fs
    by (auto simp: read_chunk_def chunk_amount_def Let_def min_def
             split: if_splits prod.splits bool.splits dest: load_hunk_fields(1))
  then show "length bs = unat (chunk_amount s e)"
    and "offset s' = offset s + ucast (chunk_amount s e)" by simp_all
qed

text \<open>
  The \<^verbatim>\<open>while\<close> loop itself; \<open>out\<close> is what has been stored in the caller's buffer so
  far, so that \<^verbatim>\<open>data_offset\<close> is its length.
\<close>

function read_loop :: "chdstream \<Rightarrow> size_t \<Rightarrow> uint8_t list \<Rightarrow> crash + chdstream \<times> uint8_t list" where
  "read_loop stream end out =
     (if offset stream < end then
        (case read_chunk stream end of
           Inl c \<Rightarrow> Inl c
         | Inr (stream', bytes) \<Rightarrow> read_loop stream' end (out @ bytes))
      else Inr (stream, out))"
  by pat_completeness auto
termination
proof (relation "measure (\<lambda>(stream, end, out). unat end - unat (offset stream))")
  show "wf (measure (\<lambda>(stream, end, out). unat end - unat (offset stream)))" by simp
next
  fix stream :: chdstream and e :: size_t and out :: "uint8_t list" and x stream' bytes
  assume lt: "offset stream < e" and r: "read_chunk stream e = Inr x" and x: "(stream', bytes) = x"
  from r x have r': "read_chunk stream e = Inr (stream', bytes)" by simp
  note fs = read_chunk_Inr(1) [OF r' lt]
  have "unat (offset stream') = unat (offset stream) + unat (chunk_amount stream e)"
    by (simp add: read_chunk_Inr(3) [OF r' lt] unat_offset_advance [OF fs lt])
  then show "((stream', e, out @ bytes), (stream, e, out))
      \<in> measure (\<lambda>(stream, end, out). unat end - unat (offset stream))"
    using chunk_amount_bounds(1,2) [OF fs lt] by simp
qed

declare read_loop.simps [simp del]

text \<open>
  \<^verbatim>\<open>chdstream_read\<close>: the value returned, the stream afterwards and the bytes stored in
  the caller's buffer from its start.
\<close>

definition chdstream_read ::
  "chdstream \<Rightarrow> size_t \<Rightarrow> crash + ssize_t \<times> chdstream \<times> uint8_t list" where
  "chdstream_read stream bytes =
     (let bytes = (if track_end stream - offset stream < bytes
                   then track_end stream - offset stream else bytes);
          end = offset stream + bytes
      in case read_loop stream end [] of
           Inl c \<Rightarrow> Inl c
         | Inr (stream', out) \<Rightarrow> Inr (bytes, stream', out))"

definition EOF :: int where "EOF = - 1"

definition sizeof_char :: size_t where "sizeof_char = 1"

text \<open>
  \<^verbatim>\<open>chdstream_getc\<close>. The third argument of the call of \<^verbatim>\<open>chdstream_read\<close> is the value
  of the comparison \<^verbatim>\<open>sizeof(c) != sizeof(c)\<close>; the \<^verbatim>\<open>char\<close> \<open>c\<close> starts as 0, receives the
  first byte stored, if any, and is returned as a signed value.
\<close>

definition chdstream_getc :: "chdstream \<Rightarrow> crash + int \<times> chdstream" where
  "chdstream_getc stream =
     (case chdstream_read stream (if sizeof_char \<noteq> sizeof_char then 1 else 0) of
        Inl e \<Rightarrow> Inl e
      | Inr (n, stream', out) \<Rightarrow>
          let c = (case out of [] \<Rightarrow> (0 :: uint8_t) | b # _ \<Rightarrow> b)
          in if n \<noteq> 0 then Inr (EOF, stream') else Inr (sint c, stream'))"

text \<open>
  The loop of \<^verbatim>\<open>chdstream_gets\<close>, with the local \<^verbatim>\<open>offset\<close> as \<open>off\<close>; it yields the
  stream, the buffer and \<open>off\<close> at the exit. A store beyond the caller's buffer is
  \<open>OutOfBounds\<close>.
\<close>

function gets_loop ::
  "chdstream \<Rightarrow> uint8_t list \<Rightarrow> size_t \<Rightarrow> size_t \<Rightarrow> crash + chdstream \<times> uint8_t list \<times> size_t" where
  "gets_loop stream buffer len off =
     (if off < len then
        (case chdstream_getc stream of
           Inl e \<Rightarrow> Inl e
         | Inr (c, stream') \<Rightarrow>
             if c \<noteq> EOF then
               (if unat off < length buffer
                then gets_loop stream' (buffer[unat off := word_of_int c]) len (off + 1)
                else Inl OutOfBounds)
             else Inr (stream', buffer, off))
      else Inr (stream, buffer, off))"
  by pat_completeness auto
termination
  by (relation "measure (\<lambda>(stream, buffer, len, off). unat len - unat off)")
     (auto simp: unat_inc_less word_less_nat_alt)

declare gets_loop.simps [simp del]

definition chdstream_gets ::
  "chdstream \<Rightarrow> uint8_t list \<Rightarrow> size_t \<Rightarrow> crash + chdstream \<times> uint8_t list" where
  "chdstream_gets stream buffer len =
     (case gets_loop stream buffer len 0 of
        Inl e \<Rightarrow> Inl e
      | Inr (stream', buffer', off) \<Rightarrow>
          if off < len then
            (if unat off < length buffer' then Inr (stream', buffer'[unat off := 0])
             else Inl OutOfBounds)
          else Inr (stream', buffer'))"

definition chdstream_tell :: "chdstream \<Rightarrow> size_t" where
  "chdstream_tell stream = offset stream"

definition chdstream_rewind :: "chdstream \<Rightarrow> chdstream" where
  "chdstream_rewind stream = stream\<lparr>offset := 0\<rparr>"

definition SEEK_SET :: int where "SEEK_SET = 0"
definition SEEK_CUR :: int where "SEEK_CUR = 1"
definition SEEK_END :: int where "SEEK_END = 2"

text \<open>
  \<^verbatim>\<open>chdstream_seek\<close>: the value returned and the stream afterwards. \<^verbatim>\<open>new_offset\<close> is an
  \<^verbatim>\<open>ssize_t\<close>: the sums are made on 64 bits and the result is read as a signed number
  for the test against 0, as an unsigned one for the test against \<^verbatim>\<open>track_end\<close>.
\<close>

definition chdstream_seek :: "chdstream \<Rightarrow> ssize_t \<Rightarrow> int \<Rightarrow> int \<times> chdstream" where
  "chdstream_seek stream off whence =
     (if whence \<noteq> SEEK_SET \<and> whence \<noteq> SEEK_CUR \<and> whence \<noteq> SEEK_END then (- 1, stream)
      else
        let new_offset =
              (if whence = SEEK_SET then off
               else if whence = SEEK_CUR then offset stream + off
               else track_end stream + off)
        in
          if sint new_offset < 0 then (- 1, stream)
          else
            let new_offset = (if track_end stream < new_offset then track_end stream else new_offset)
            in (0, stream\<lparr>offset := new_offset\<rparr>))"

section \<open>Example containers\<close>

text \<open>An extended CD-track entry with no pregap.\<close>

definition cd_track :: "uint32_t \<Rightarrow> string \<Rightarrow> uint32_t \<Rightarrow> track_text" where
  "cd_track n ty fr =
     \<lparr>t_track = n, t_type = ty, t_subtype = ''NONE'', t_frames = fr, t_pad = 0, t_pregap = 0,
      t_pgtype = ''MODE1'', t_pgsub = ''NONE'', t_postgap = 0\<rparr>"

text \<open>A disc with a data track followed by two audio tracks, and a disc with one audio track.\<close>

definition ex_three_tracks :: chd_file where
  "ex_three_tracks =
     \<lparr>header = \<lparr>hunkbytes = 19584, unitbytes = 2448\<rparr>, hunks = [],
      cdrom2_entries = [cd_track 1 ''MODE1_RAW'' 100, cd_track 2 ''AUDIO'' 50, cd_track 3 ''AUDIO'' 70],
      cdrom_entries = [], gdrom_entries = [], read_calls = []\<rparr>"

definition ex_audio_only :: chd_file where
  "ex_audio_only =
     \<lparr>header = \<lparr>hunkbytes = 19584, unitbytes = 2448\<rparr>, hunks = [],
      cdrom2_entries = [cd_track 1 ''AUDIO'' 200],
      cdrom_entries = [], gdrom_entries = [], read_calls = []\<rparr>"

text \<open>
  A small container of four-byte units, two to a hunk, with one track of a cooked type:
  one frame of pregap, stored with the track, and four frames of data, of which the last
  two lie in a hunk that cannot be decompressed.
\<close>

definition ex_chd :: chd_file where
  "ex_chd =
     \<lparr>header = \<lparr>hunkbytes = 8, unitbytes = 4\<rparr>,
      hunks = [Some [0x11, 0x12, 0x13, 0x14, 0x15, 0x16, 0x17, 0x18], None],
      cdrom2_entries =
        [\<lparr>t_track = 1, t_type = ''MODE1'', t_subtype = ''NONE'', t_frames = 4, t_pad = 0,
          t_pregap = 1, t_pgtype = ''MODE1'', t_pgsub = ''NONE'', t_postgap = 0\<rparr>],
      cdrom_entries = [], gdrom_entries = [], read_calls = []\<rparr>"

text \<open>The stream that opening track 1 of this container gives.\<close>

definition ex_stream :: chdstream where
  "ex_stream =
     \<lparr>chd = ex_chd, swab = False, frame_size = 4, frame_offset = 0, frames_per_hunk = 2,
      track_frame = 0, track_start = 4, track_end = 20, offset = 0, hunknum = - 1,
      hunkmem = [0, 0, 0, 0, 0, 0, 0, 0]\<rparr>"


text \<open>The example stream as an audio track, with its cursor on the first data byte.\<close>

definition ex_swab_stream :: chdstream where
  "ex_swab_stream = ex_stream\<lparr>swab := True, offset := 4\<rparr>"

text \<open>
  A container whose header has a unit larger than the hunk, so that no frame fits a
  hunk, and the stream that opening its track gives.
\<close>

definition ex_bad_chd :: chd_file where
  "ex_bad_chd =
     \<lparr>header = \<lparr>hunkbytes = 4, unitbytes = 8\<rparr>,
      hunks = [Some [0x21, 0x22, 0x23, 0x24]],
      cdrom2_entries = [cd_track 1 ''MODE1'' 4],
      cdrom_entries = [], gdrom_entries = [], read_calls = []\<rparr>"

definition ex_bad_stream :: chdstream where
  "ex_bad_stream =
     \<lparr>chd = ex_bad_chd, swab = False, frame_size = 8, frame_offset = 0, frames_per_hunk = 0,
      track_frame = 0, track_start = 0, track_end = 32, offset = 0, hunknum = - 1,
      hunkmem = [0, 0, 0, 0]\<rparr>"

text \<open>
  A container of one hunk of one four-byte unit whose metadata puts the second track at
  frame \<open>0xFFFFFFFC\<close>, and the stream that opening that track gives when \<^verbatim>\<open>malloc\<close>
  returns a block filled with \<open>0xAA\<close>.
\<close>

definition ex_far_chd :: chd_file where
  "ex_far_chd =
     \<lparr>header = \<lparr>hunkbytes = 4, unitbytes = 4\<rparr>,
      hunks = [Some [0x31, 0x32, 0x33, 0x34]],
      cdrom2_entries = [cd_track 1 ''MODE1'' 0xFFFFFFFC, cd_track 2 ''MODE1'' 4],
      cdrom_entries = [], gdrom_entries = [], read_calls = []\<rparr>"

definition ex_far_stream :: chdstream where
  "ex_far_stream =
     \<lparr>chd = ex_far_chd, swab = False, frame_size = 4, frame_offset = 0, frames_per_hunk = 1,
      track_frame = 0xFFFFFFFC, track_start = 0, track_end = 16, offset = 0, hunknum = - 1,
      hunkmem = [0xAA, 0xAA, 0xAA, 0xAA]\<rparr>"

section \<open>Notions used in the statements\<close>

text \<open>The candidate position of a seek, as a number.\<close>

definition seek_candidate :: "chdstream \<Rightarrow> ssize_t \<Rightarrow> int \<Rightarrow> int" where
  "seek_candidate stream off whence =
     (if whence = SEEK_SET then sint off
      else if whence = SEEK_CUR then uint (offset stream) + sint off
      else uint (track_end stream) + sint off)"

text \<open>The origins that \<^verbatim>\<open>chdstream_seek\<close> recognises.\<close>

definition valid_whence :: "int \<Rightarrow> bool" where
  "valid_whence whence = (whence = SEEK_SET \<or> whence = SEEK_CUR \<or> whence = SEEK_END)"


text \<open>The bytes of a buffer with the two bytes of every 16-bit word exchanged.\<close>

fun swab_bytes :: "uint8_t list \<Rightarrow> uint8_t list" where
  "swab_bytes (a # b # rest) = b # a # swab_bytes rest"
| "swab_bytes xs = xs"

text \<open>The geometry that a stream has when its container's header is sound.\<close>

definition geometry_ok :: "chdstream \<Rightarrow> bool" where
  "geometry_ok stream =
     (let hd = chd_get_header (chd stream) in
        frame_size stream \<noteq> 0 \<and> frames_per_hunk stream \<noteq> 0
      \<and> frame_size stream \<le> unitbytes hd
      \<and> unat (frames_per_hunk stream) * unat (unitbytes hd) \<le> unat (hunkbytes hd)
      \<and> frame_offset stream = 0
      \<and> length (hunkmem stream) = unat (hunkbytes hd)
      \<and> list_all (\<lambda>h. case h of None \<Rightarrow> True | Some d \<Rightarrow> length d = unat (hunkbytes hd))
           (hunks (chd stream)))"

text \<open>The hunk that \<^verbatim>\<open>chdstream_read\<close> asks for when its cursor is at \<open>pos\<close>.\<close>

definition hunk_of :: "chdstream \<Rightarrow> size_t \<Rightarrow> uint32_t" where
  "hunk_of stream pos =
     (ucast (ucast (track_frame stream)
        + (pos - track_start stream) div ucast (frame_size stream)) :: uint32_t)
       div frames_per_hunk stream"

text \<open>
  The frame size of a track by its type, and the pregap frames that count as part of its
  byte range.
\<close>

definition track_frame_size :: "chd_header \<Rightarrow> metadata_t \<Rightarrow> uint32_t" where
  "track_frame_size h meta =
     (if type meta \<in> {''MODE1_RAW'', ''MODE2_RAW'', ''AUDIO''} then 2352 else unitbytes h)"

definition counted_pregap :: "metadata_t \<Rightarrow> uint32_t" where
  "counted_pregap meta = (if type meta = pgtype meta then pregap meta else 0)"

text \<open>The states that a stream goes through after it has been opened.\<close>

inductive reachable :: "chdstream \<Rightarrow> chdstream \<Rightarrow> bool" for s where
  start: "reachable s s"
| after_read: "reachable s t \<Longrightarrow> chdstream_read t n = Inr (k, t', out) \<Longrightarrow> reachable s t'"
| after_getc: "reachable s t \<Longrightarrow> chdstream_getc t = Inr (c, t') \<Longrightarrow> reachable s t'"
| after_gets: "reachable s t \<Longrightarrow> chdstream_gets t buffer len = Inr (t', buffer') \<Longrightarrow> reachable s t'"
| after_seek: "reachable s t \<Longrightarrow> chdstream_seek t off whence = (r, t') \<Longrightarrow> reachable s t'"
| after_rewind: "reachable s t \<Longrightarrow> reachable s (chdstream_rewind t)"

text \<open>The engine can deliver hunk \<open>h\<close>.\<close>

definition hunk_loads :: "chd_file \<Rightarrow> uint32_t \<Rightarrow> bool" where
  "hunk_loads c h = (unat h < length (hunks c) \<and> hunks c ! unat h \<noteq> None)"


text \<open>
  Hunk \<open>h\<close> of the container as a track presents it: as stored, with the two bytes of
  every 16-bit word exchanged for an audio track.
\<close>

definition hunk_image :: "chdstream \<Rightarrow> uint32_t \<Rightarrow> uint8_t list" where
  "hunk_image stream h =
     (case hunks (chd stream) ! unat h of
        None \<Rightarrow> []
      | Some d \<Rightarrow> if swab stream then swab_bytes d else d)"

text \<open>
  The byte of the track at the logical offset \<open>pos\<close>, located in the container as section
  4.4 of the spec has it: the physical frame is the first frame of the track plus
  \<open>(pos - track_start_byte) / frame_size\<close>, the hunk is \<open>frame / frames_per_hunk\<close>, the
  frame starts in it at \<open>(frame % frames_per_hunk) * native_unit_size\<close>, and the byte lies
  \<open>pos % frame_size\<close> bytes, plus the data offset of the frame, further.
\<close>

definition track_byte :: "chdstream \<Rightarrow> size_t \<Rightarrow> uint8_t" where
  "track_byte stream pos =
     (let frame = (ucast (ucast (track_frame stream)
                     + (pos - track_start stream) div ucast (frame_size stream)) :: uint32_t);
          hunk = frame div frames_per_hunk stream;
          hunk_offset = (frame mod frames_per_hunk stream)
                          * unitbytes (chd_get_header (chd stream));
          intra = (ucast (pos mod ucast (frame_size stream)) :: uint32_t)
      in hunk_image stream hunk ! (unat intra + unat hunk_offset + unat (frame_offset stream)))"

text \<open>
  The hunk buffer holds the hunk whose number the stream keeps; and the weaker state in
  which it may also hold nothing yet, the number being the \<open>-1\<close> that
  \<^verbatim>\<open>chdstream_open\<close> has put there.
\<close>

definition cache_loaded :: "chdstream \<Rightarrow> bool" where
  "cache_loaded stream =
     (unat (hunknum stream) < length (hunks (chd stream))
      \<and> hunks (chd stream) ! unat (hunknum stream) \<noteq> None
      \<and> hunkmem stream = hunk_image stream (hunknum stream))"

definition cache_ok :: "chdstream \<Rightarrow> bool" where
  "cache_ok stream = (hunknum stream = - 1 \<or> cache_loaded stream)"

section \<open>Track lookup: the symbolic selectors\<close>

lemmas lookup_defs =
  chdstream_find_track_def chdstream_find_special_track_def chdstream_find_track_number_def
  chdstream_get_meta_def chd_get_metadata_def metadata_def metadata_zero_def
  padding_frames_def TRACK_PAD_def

lemma three_tracks_number:
  "chdstream_find_track_number ex_three_tracks i =
     (if i = 1 then Some (True, \<lparr>type = ''MODE1_RAW'', subtype = ''NONE'', pgtype = ''MODE1'',
          pgsub = ''NONE'', frame_offset = 0, frames = 100, pad = 0, extra = 0, pregap = 0,
          postgap = 0, track = 1\<rparr>)
      else if i = 2 then Some (True, \<lparr>type = ''AUDIO'', subtype = ''NONE'', pgtype = ''MODE1'',
          pgsub = ''NONE'', frame_offset = 100, frames = 50, pad = 0, extra = 2, pregap = 0,
          postgap = 0, track = 2\<rparr>)
      else if i = 3 then Some (True, \<lparr>type = ''AUDIO'', subtype = ''NONE'', pgtype = ''MODE1'',
          pgsub = ''NONE'', frame_offset = 152, frames = 70, pad = 0, extra = 2, pregap = 0,
          postgap = 0, track = 3\<rparr>)
      else Some (False, metadata_zero))"
  by (simp add: lookup_defs find_track_number_loop.simps ex_three_tracks_def cd_track_def Let_def)

lemma selector_distinct [simp]:
  "CHDSTREAM_TRACK_FIRST_DATA \<noteq> CHDSTREAM_TRACK_LAST"
  "CHDSTREAM_TRACK_FIRST_DATA \<noteq> CHDSTREAM_TRACK_PRIMARY"
  "CHDSTREAM_TRACK_LAST \<noteq> CHDSTREAM_TRACK_FIRST_DATA"
  "CHDSTREAM_TRACK_LAST \<noteq> CHDSTREAM_TRACK_PRIMARY"
  "CHDSTREAM_TRACK_PRIMARY \<noteq> CHDSTREAM_TRACK_FIRST_DATA"
  "CHDSTREAM_TRACK_PRIMARY \<noteq> CHDSTREAM_TRACK_LAST"
  by (simp_all add: CHDSTREAM_TRACK_FIRST_DATA_def CHDSTREAM_TRACK_LAST_def
        CHDSTREAM_TRACK_PRIMARY_def)

lemma selector_negative [simp]:
  "sint CHDSTREAM_TRACK_FIRST_DATA < 0" "sint CHDSTREAM_TRACK_LAST < 0"
  "sint CHDSTREAM_TRACK_PRIMARY < 0"
  by (simp_all add: CHDSTREAM_TRACK_FIRST_DATA_def CHDSTREAM_TRACK_LAST_def
        CHDSTREAM_TRACK_PRIMARY_def)

lemma three_tracks_last_loop:
  "find_special_track_loop (Suc (Suc (Suc (Suc n)))) ex_three_tracks CHDSTREAM_TRACK_LAST 1 0 0
     = Some (True, metadata_zero)"
  by (simp add: three_tracks_number)

text \<open>
  Claim C5. Resolving LAST on a container with at least two records should return the
  final record, with its accumulated frame offset; on three tracks it should resolve to
  track 3. In the code the record handed back is the one that the failed lookup of track
  4 left behind, and \<^verbatim>\<open>chdstream_get_meta\<close> has cleared it: on the three-track disc LAST
  yields the all-zero record (track 0, no frames, frame offset 0), whatever the bound on
  the iterations, while the lookup of track 3 by number finds 70 frames at frame offset
  152.
\<close>

theorem last_selector_yields_zeroed_record:
  "chdstream_find_track (4 + n) ex_three_tracks CHDSTREAM_TRACK_LAST = Some (True, metadata_zero)
   \<and> (\<exists>m. chdstream_find_track_number ex_three_tracks 3 = Some (True, m)
          \<and> track m = 3 \<and> frames m = 70 \<and> metadata_t.frame_offset m = 152)"
proof -
  have "4 + n = Suc (Suc (Suc (Suc n)))" by simp
  then have "chdstream_find_track (4 + n) ex_three_tracks CHDSTREAM_TRACK_LAST
      = Some (True, metadata_zero)"
    by (simp only: chdstream_find_track_def chdstream_find_special_track_def
          three_tracks_last_loop selector_negative if_True)
  moreover have "\<exists>m. chdstream_find_track_number ex_three_tracks 3 = Some (True, m)
          \<and> track m = 3 \<and> frames m = 70 \<and> metadata_t.frame_offset m = 152"
    by (simp add: three_tracks_number)
  ultimately show ?thesis by (rule conjI)
qed

lemma audio_only_number:
  "chdstream_find_track_number ex_audio_only i =
     (if i = 1 then Some (True, \<lparr>type = ''AUDIO'', subtype = ''NONE'', pgtype = ''MODE1'',
          pgsub = ''NONE'', frame_offset = 0, frames = 200, pad = 0, extra = 0, pregap = 0,
          postgap = 0, track = 1\<rparr>)
      else Some (False, metadata_zero))"
  by (simp add: lookup_defs find_track_number_loop.simps ex_audio_only_def cd_track_def Let_def)

lemma audio_only_primary_loop:
  "find_special_track_loop fuel ex_audio_only CHDSTREAM_TRACK_PRIMARY i 0 0 = None"
proof (induction fuel arbitrary: i)
  case 0
  show ?case by simp
next
  case (Suc fuel)
  show ?case
    by (cases "i = 1") (simp_all add: audio_only_number Suc.IH metadata_zero_def)
qed

lemma audio_only_first_data_loop:
  "find_special_track_loop (Suc (Suc n)) ex_audio_only CHDSTREAM_TRACK_FIRST_DATA 1 0 0
     = Some (True, metadata_zero)"
  by (simp add: audio_only_number metadata_zero_def)

text \<open>
  Claim C6. When no record is of a type other than AUDIO, FIRST_DATA and PRIMARY should
  both report that nothing was found, and the resolution should terminate. On the disc
  with a single audio track FIRST_DATA reports success with the all-zero record, and
  PRIMARY does not return within any number of iterations.
\<close>

theorem no_data_track_is_not_reported:
  "chdstream_find_track (2 + n) ex_audio_only CHDSTREAM_TRACK_FIRST_DATA
      = Some (True, metadata_zero)
   \<and> (\<forall>fuel. chdstream_find_track fuel ex_audio_only CHDSTREAM_TRACK_PRIMARY = None)"
proof -
  have "2 + n = Suc (Suc n)" by simp
  then have "chdstream_find_track (2 + n) ex_audio_only CHDSTREAM_TRACK_FIRST_DATA
      = Some (True, metadata_zero)"
    by (simp only: chdstream_find_track_def chdstream_find_special_track_def
          audio_only_first_data_loop selector_negative if_True)
  moreover have "\<forall>fuel. chdstream_find_track fuel ex_audio_only CHDSTREAM_TRACK_PRIMARY = None"
    by (simp add: chdstream_find_track_def chdstream_find_special_track_def
          audio_only_primary_loop)
  ultimately show ?thesis by (rule conjI)
qed

section \<open>Reading: failures and the single-byte read\<close>

lemma read_zero_bytes: "chdstream_read stream 0 = Inr (0, stream, [])"
  by (simp add: chdstream_read_def read_loop.simps)

lemma getc_returns_zero: "chdstream_getc stream = Inr (0, stream)"
  by (simp add: chdstream_getc_def read_zero_bytes)

text \<open>
  Claim C3. A read in which a hunk load fails should report the failure to its caller as
  a result value, never by ending the process. In the code the failure runs into
  \<^verbatim>\<open>abort()\<close>, before the \<^verbatim>\<open>return -1\<close> that follows it: reading 13 bytes from the start
  of the example stream needs the third data frame, whose hunk cannot be loaded, and the
  call aborts; a read of 12 bytes, which stops before that hunk, returns 12 with the four
  pregap zeros and the eight data bytes.
\<close>

theorem read_aborts_on_failed_hunk:
  "chdstream_read ex_stream 13 = Inl Aborted
   \<and> (\<exists>s'. chdstream_read ex_stream 12
          = Inr (12, s', [0, 0, 0, 0, 0x11, 0x12, 0x13, 0x14, 0x15, 0x16, 0x17, 0x18]))"
proof -
  have "chdstream_read ex_stream 13 = Inl Aborted"
    by code_simp
  moreover have "chdstream_read ex_stream 12
      = Inr (12, ex_stream\<lparr>chd := ex_chd\<lparr>read_calls := [0]\<rparr>, offset := 12, hunknum := 0,
                   hunkmem := [0x11, 0x12, 0x13, 0x14, 0x15, 0x16, 0x17, 0x18]\<rparr>,
             [0, 0, 0, 0, 0x11, 0x12, 0x13, 0x14, 0x15, 0x16, 0x17, 0x18])"
    by code_simp
  ultimately show ?thesis by simp
qed

text \<open>
  Claim C4. The single-byte read should read one byte, return it and advance the cursor
  by one, and report the end of the stream exactly when no byte was produced. The code
  asks \<^verbatim>\<open>chdstream_read\<close> for \<^verbatim>\<open>sizeof(c) != sizeof(c)\<close> bytes, that is for none: at
  offset 4 of the example stream, where a read of one byte delivers 0x11 and moves to
  offset 5, it returns 0 and leaves the cursor at 4; at the end of the track it returns
  0 again, which is not \<open>EOF\<close>.
\<close>

theorem getc_never_reads_a_byte:
  "chdstream_getc (ex_stream\<lparr>offset := 4\<rparr>) = Inr (0, ex_stream\<lparr>offset := 4\<rparr>)
   \<and> (\<exists>s'. chdstream_read (ex_stream\<lparr>offset := 4\<rparr>) 1 = Inr (1, s', [0x11]) \<and> offset s' = 5)
   \<and> chdstream_getc (ex_stream\<lparr>offset := 20\<rparr>) = Inr (0, ex_stream\<lparr>offset := 20\<rparr>)
   \<and> EOF \<noteq> 0"
proof -
  have "chdstream_read (ex_stream\<lparr>offset := 4\<rparr>) 1
      = Inr (1, ex_stream\<lparr>chd := ex_chd\<lparr>read_calls := [0]\<rparr>, offset := 5, hunknum := 0,
                   hunkmem := [0x11, 0x12, 0x13, 0x14, 0x15, 0x16, 0x17, 0x18]\<rparr>, [0x11])"
    by code_simp
  then have "\<exists>s'. chdstream_read (ex_stream\<lparr>offset := 4\<rparr>) 1 = Inr (1, s', [0x11]) \<and> offset s' = 5"
    by simp
  then show ?thesis
    by (simp add: getc_returns_zero EOF_def)
qed

section \<open>Seeking\<close>

lemma sint_word_of_int_in_range:
  assumes "- (2 ^ 63) \<le> k" and "k < 2 ^ 63"
  shows "sint (word_of_int k :: 64 word) = k"
  using assms by (simp add: sint_sbintrunc' signed_take_bit_int_eq_self)

lemma sint_add_unsigned:
  assumes "uint (a :: 64 word) + sint (b :: 64 word) < 2 ^ 63"
  shows "sint (a + b) = uint a + sint b"
proof -
  have "a + b = word_of_int (uint a + sint b)" by simp
  moreover have "- (2 ^ 63) \<le> uint a + sint b"
  proof -
    have "0 \<le> uint a" by simp
    moreover have "- (2 ^ 63) \<le> sint b" using sint_ge [of b] by simp
    ultimately show ?thesis by linarith
  qed
  ultimately show ?thesis
    using assms sint_word_of_int_in_range by metis
qed

lemma uint_eq_sint_nonneg: "0 \<le> sint (w :: 64 word) \<Longrightarrow> uint w = sint w"
proof -
  assume nonneg: "0 \<le> sint w"
  have "sint w < 2 ^ 63" using sint_lt [of w] by simp
  then have "sint w < 2 ^ 64" by simp
  then show ?thesis
    using nonneg by (simp add: uint_sint [of w] take_bit_int_eq_self)
qed

lemma seek_new_offset_sint:
  assumes "whence = SEEK_SET \<or> whence = SEEK_CUR \<or> whence = SEEK_END"
    and "seek_candidate stream off whence < 2 ^ 63"
  shows "sint (if whence = SEEK_SET then off
               else if whence = SEEK_CUR then offset stream + off
               else track_end stream + off) = seek_candidate stream off whence"
  using assms by (auto simp: seek_candidate_def sint_add_unsigned)

lemma seek_unfold:
  assumes "valid_whence whence" and "seek_candidate stream off whence < 2 ^ 63"
  shows "chdstream_seek stream off whence =
     (if seek_candidate stream off whence < 0 then (- 1, stream)
      else if uint (track_end stream) < seek_candidate stream off whence
        then (0, stream\<lparr>offset := track_end stream\<rparr>)
      else (0, stream\<lparr>offset := word_of_int (seek_candidate stream off whence)\<rparr>))"
proof -
  define x where "x = (if whence = SEEK_SET then off
            else if whence = SEEK_CUR then offset stream + off else track_end stream + off)"
  have v: "whence = SEEK_SET \<or> whence = SEEK_CUR \<or> whence = SEEK_END"
    using assms(1) by (simp add: valid_whence_def)
  have s: "sint x = seek_candidate stream off whence"
    unfolding x_def using v assms(2) by (rule seek_new_offset_sint)
  have seek: "chdstream_seek stream off whence =
      (if sint x < 0 then (- 1, stream)
       else (0, stream\<lparr>offset := (if track_end stream < x then track_end stream else x)\<rparr>))"
    unfolding x_def using v by (auto simp: chdstream_seek_def Let_def)
  show ?thesis
  proof (cases "seek_candidate stream off whence < 0")
    case True
    then show ?thesis by (simp add: seek s)
  next
    case False
    then have nonneg: "0 \<le> sint x" by (simp add: s)
    have u: "uint x = seek_candidate stream off whence"
      using uint_eq_sint_nonneg [OF nonneg] s by simp
    have "word_of_int (sint x) = x" by simp
    then have w: "word_of_int (seek_candidate stream off whence) = x"
      by (simp only: s)
    have lt: "track_end stream < x \<longleftrightarrow> uint (track_end stream) < seek_candidate stream off whence"
      by (simp only: word_less_def u)
    show ?thesis
      using False by (simp add: seek s lt w)
  qed
qed

text \<open>
  Claim C7, amended. The candidate position is \<open>offset\<close>, \<open>current_offset + offset\<close> or
  \<open>track_end_byte + offset\<close>, according to the origin. An origin that is not recognised
  is an error that leaves the stream as it was, and so is a negative candidate. Provided
  the candidate is below \<open>2^63\<close>, so that the signed 64-bit variable can hold it, a
  candidate beyond \<open>track_end_byte\<close> moves the cursor to \<open>track_end_byte\<close> and succeeds,
  and any other candidate becomes the cursor. In particular, when \<open>track_end_byte\<close> is
  below \<open>2^63\<close>, a seek of 0 from the end makes \<open>tell\<close> equal to it, and a seek of -1
  relative to offset 0 fails and changes nothing.
\<close>

theorem seek_without_overflow:
  "(\<not> valid_whence whence \<longrightarrow> chdstream_seek stream off whence = (- 1, stream))
   \<and> (valid_whence whence \<and> seek_candidate stream off whence < 0
        \<longrightarrow> chdstream_seek stream off whence = (- 1, stream))
   \<and> (valid_whence whence \<and> uint (track_end stream) < seek_candidate stream off whence
         \<and> seek_candidate stream off whence < 2 ^ 63
        \<longrightarrow> chdstream_seek stream off whence = (0, stream\<lparr>offset := track_end stream\<rparr>))
   \<and> (valid_whence whence \<and> 0 \<le> seek_candidate stream off whence
         \<and> seek_candidate stream off whence \<le> uint (track_end stream)
         \<and> seek_candidate stream off whence < 2 ^ 63
        \<longrightarrow> chdstream_seek stream off whence
              = (0, stream\<lparr>offset := word_of_int (seek_candidate stream off whence)\<rparr>)
            \<and> uint (word_of_int (seek_candidate stream off whence) :: size_t)
              = seek_candidate stream off whence)
   \<and> (uint (track_end stream) < 2 ^ 63
        \<longrightarrow> chdstream_seek stream 0 SEEK_END = (0, stream\<lparr>offset := track_end stream\<rparr>)
            \<and> chdstream_tell (stream\<lparr>offset := track_end stream\<rparr>) = track_end stream)
   \<and> (offset stream = 0 \<longrightarrow> chdstream_seek stream (- 1) SEEK_CUR = (- 1, stream))"
proof -
  let ?c = "seek_candidate stream off whence"
  have c1: "chdstream_seek stream off whence = (- 1, stream)" if "\<not> valid_whence whence"
    using that by (simp add: valid_whence_def chdstream_seek_def)
  have c2: "chdstream_seek stream off whence = (- 1, stream)"
    if "valid_whence whence" and "?c < 0"
    using that by (simp add: seek_unfold)
  have c3: "chdstream_seek stream off whence = (0, stream\<lparr>offset := track_end stream\<rparr>)"
    if "valid_whence whence" and "uint (track_end stream) < ?c" and "?c < 2 ^ 63"
  proof -
    have "\<not> ?c < 0"
      using that(2) uint_nonnegative [of "track_end stream"] by linarith
    with that show ?thesis by (simp add: seek_unfold)
  qed
  have c4: "chdstream_seek stream off whence = (0, stream\<lparr>offset := word_of_int ?c\<rparr>)
            \<and> uint (word_of_int ?c :: size_t) = ?c"
    if "valid_whence whence" and "0 \<le> ?c" and "?c \<le> uint (track_end stream)" and "?c < 2 ^ 63"
  proof -
    have "?c < 2 ^ 64" using that(4) by simp
    then have "uint (word_of_int ?c :: size_t) = ?c"
      using that(2) by (simp add: uint_word_of_int)
    with that show ?thesis by (simp add: seek_unfold)
  qed
  have c5: "chdstream_seek stream 0 SEEK_END = (0, stream\<lparr>offset := track_end stream\<rparr>)
            \<and> chdstream_tell (stream\<lparr>offset := track_end stream\<rparr>) = track_end stream"
    if "uint (track_end stream) < 2 ^ 63"
    using that
    by (simp add: seek_unfold valid_whence_def seek_candidate_def chdstream_tell_def
          SEEK_SET_def SEEK_CUR_def SEEK_END_def)
  have c6: "chdstream_seek stream (- 1) SEEK_CUR = (- 1, stream)" if "offset stream = 0"
    using that
    by (simp add: seek_unfold valid_whence_def seek_candidate_def
          SEEK_SET_def SEEK_CUR_def SEEK_END_def)
  show ?thesis
    using c1 c2 c3 c4 c5 c6 by blast
qed

text \<open>
  Witness for C7: on the example stream, whose track ends at byte 20, an unknown origin
  and a relative seek below 0 fail, a seek to 100 is clamped to 20, a seek to 7 lands
  on 7, and a seek of 0 from the end lands on 20.
\<close>

theorem seek_without_overflow_witness:
  "\<not> valid_whence 7 \<and> chdstream_seek ex_stream 0 7 = (- 1, ex_stream)
   \<and> valid_whence SEEK_CUR \<and> seek_candidate ex_stream (- 1) SEEK_CUR < 0
   \<and> chdstream_seek ex_stream (- 1) SEEK_CUR = (- 1, ex_stream)
   \<and> valid_whence SEEK_SET \<and> uint (track_end ex_stream) < seek_candidate ex_stream 100 SEEK_SET
   \<and> seek_candidate ex_stream 100 SEEK_SET < 2 ^ 63
   \<and> chdstream_seek ex_stream 100 SEEK_SET = (0, ex_stream\<lparr>offset := track_end ex_stream\<rparr>)
   \<and> 0 \<le> seek_candidate ex_stream 7 SEEK_SET
   \<and> seek_candidate ex_stream 7 SEEK_SET \<le> uint (track_end ex_stream)
   \<and> seek_candidate ex_stream 7 SEEK_SET < 2 ^ 63
   \<and> chdstream_seek ex_stream 7 SEEK_SET = (0, ex_stream\<lparr>offset := 7\<rparr>)
   \<and> uint (track_end ex_stream) < 2 ^ 63
   \<and> chdstream_seek ex_stream 0 SEEK_END = (0, ex_stream\<lparr>offset := track_end ex_stream\<rparr>)
   \<and> chdstream_tell (ex_stream\<lparr>offset := track_end ex_stream\<rparr>) = track_end ex_stream"
proof -
  have facts:
    "\<not> valid_whence 7" "valid_whence SEEK_CUR" "valid_whence SEEK_SET"
    "seek_candidate ex_stream (- 1) SEEK_CUR = - 1"
    "seek_candidate ex_stream 100 SEEK_SET = 100"
    "seek_candidate ex_stream 7 SEEK_SET = 7"
    "uint (track_end ex_stream) = 20" "offset ex_stream = 0"
    by (simp_all add: valid_whence_def seek_candidate_def ex_stream_def
          SEEK_SET_def SEEK_CUR_def SEEK_END_def)
  have w1: "chdstream_seek ex_stream 0 7 = (- 1, ex_stream)"
    using seek_without_overflow [of 7 ex_stream 0] by (simp add: facts)
  have w2: "chdstream_seek ex_stream (- 1) SEEK_CUR = (- 1, ex_stream)"
    using seek_without_overflow [of SEEK_CUR ex_stream "- 1"] by (simp add: facts)
  have w3: "chdstream_seek ex_stream 100 SEEK_SET = (0, ex_stream\<lparr>offset := track_end ex_stream\<rparr>)"
    using seek_without_overflow [of SEEK_SET ex_stream 100] by (simp add: facts)
  have w4: "chdstream_seek ex_stream 7 SEEK_SET = (0, ex_stream\<lparr>offset := 7\<rparr>)"
    using seek_without_overflow [of SEEK_SET ex_stream 7] by (simp add: facts)
  have w5: "chdstream_seek ex_stream 0 SEEK_END = (0, ex_stream\<lparr>offset := track_end ex_stream\<rparr>)
      \<and> chdstream_tell (ex_stream\<lparr>offset := track_end ex_stream\<rparr>) = track_end ex_stream"
    using seek_without_overflow [of SEEK_SET ex_stream 0] by (simp add: facts)
  show ?thesis
    using w1 w2 w3 w4 w5 by (simp add: facts)
qed

text \<open>
  Claim C7 as stated fails where the sum leaves the signed range: the track of the
  example stream ends at byte 20; at offset 1 a relative seek by \<open>2^63 - 1\<close> has the
  candidate \<open>2^63\<close>, beyond the end of the track, and the claim has it clamped and
  successful, but the code returns -1 and leaves the cursor at 1.
\<close>

theorem seek_wraps_counterexample:
  "chdstream_seek (ex_stream\<lparr>offset := 1\<rparr>) 0x7FFFFFFFFFFFFFFF SEEK_CUR
      = (- 1, ex_stream\<lparr>offset := 1\<rparr>)
   \<and> seek_candidate (ex_stream\<lparr>offset := 1\<rparr>) 0x7FFFFFFFFFFFFFFF SEEK_CUR = 2 ^ 63
   \<and> uint (track_end (ex_stream\<lparr>offset := 1\<rparr>)) = 20"
  by (simp add: chdstream_seek_def seek_candidate_def ex_stream_def SEEK_SET_def SEEK_CUR_def SEEK_END_def)

section \<open>The bounded byte slurp\<close>







section \<open>The hunk cache\<close>

subsection \<open>The byte swap of a loaded hunk\<close>

lemma swap16_low: "(ucast (SWAP16 (ucast (a :: uint8_t) OR push_bit 8 (ucast (b :: uint8_t)))) :: uint8_t) = b"
  unfolding SWAP16_def
  by (rule bit_word_eqI) (auto simp: bit_simps dest: bit_imp_le_length)

lemma swap16_high: "(ucast (drop_bit 8 (SWAP16 (ucast (a :: uint8_t) OR push_bit 8 (ucast (b :: uint8_t))))) :: uint8_t) = a"
  unfolding SWAP16_def
  by (rule bit_word_eqI) (auto simp: bit_simps dest: bit_imp_le_length)

lemma store16_swap:
  "store16 mem i (SWAP16 (load16 mem i)) = mem[2 * i := mem ! (2 * i + 1), 2 * i + 1 := mem ! (2 * i)]"
  by (simp add: store16_def load16_def swap16_low swap16_high)

lemma swab_bytes_length [simp]: "length (swab_bytes xs) = length xs"
  by (induction xs rule: swab_bytes.induct) simp_all

lemma swab_bytes_nth:
  "2 * i + 1 < length xs \<Longrightarrow>
     swab_bytes xs ! (2 * i) = xs ! (2 * i + 1) \<and> swab_bytes xs ! (2 * i + 1) = xs ! (2 * i)"
proof (induction xs arbitrary: i rule: swab_bytes.induct)
  case (1 a b rest)
  show ?case
  proof (cases i)
    case 0
    then show ?thesis by simp
  next
    case (Suc j)
    then have "2 * j + 1 < length rest" using "1.prems" by simp
    from "1.IH" [OF this] show ?thesis using Suc by simp
  qed
qed simp_all

lemma swab_bytes_last:
  "odd (length xs) \<Longrightarrow> swab_bytes xs ! (length xs - 1) = xs ! (length xs - 1)"
proof (induction xs rule: swab_bytes.induct)
  case (1 a b rest)
  then have "0 < length rest" by (cases rest) simp_all
  then show ?case using 1 by (simp add: nth_Cons')
qed simp_all

text \<open>The loop has swapped the first \<open>i\<close> pairs and swaps the next \<open>count - i\<close>.\<close>

lemma swab_loop_bytes:
  assumes "i \<le> count" and "2 * unat count \<le> length mem"
  shows "swab_loop mem count i =
     take (2 * unat i) mem
       @ swab_bytes (take (2 * (unat count - unat i)) (drop (2 * unat i) mem))
       @ drop (2 * unat count) mem"
  using assms
proof (induction mem count i rule: swab_loop.induct)
  case (1 mem count i)
  show ?case
  proof (cases "i < count")
    case False
    with "1.prems" have "i = count" by simp
    then show ?thesis
      by (simp add: swab_loop.simps [of mem count count])
  next
    case True
    let ?m = "store16 mem (unat i) (SWAP16 (load16 mem (unat i)))"
    have lt: "unat i < unat count" using True by (simp add: word_less_nat_alt)
    have suc: "unat (i + 1) = Suc (unat i)" using True by (rule unat_inc_less)
    have le': "i + 1 \<le> count" using True by (rule inc_le)
    have inb: "2 * unat i + 1 < length mem" using lt "1.prems" by simp
    have m: "?m = mem[2 * unat i := mem ! (2 * unat i + 1), 2 * unat i + 1 := mem ! (2 * unat i)]"
      by (rule store16_swap)
    have len: "length ?m = length mem" by (simp add: m)
    have IH: "swab_loop ?m count (i + 1) =
       take (2 * unat (i + 1)) ?m
         @ swab_bytes (take (2 * (unat count - unat (i + 1))) (drop (2 * unat (i + 1)) ?m))
         @ drop (2 * unat count) ?m"
      using "1.IH" [OF True le'] "1.prems" len by simp
    obtain k where k: "unat count - unat i = Suc k" using lt by (metis Suc_diff_Suc)
    have k': "unat count - Suc (unat i) = k" using k by simp
    have cnt: "2 * unat count = 2 * unat i + 2 + 2 * k" using k lt by simp
    have t1: "take (2 * Suc (unat i)) ?m = take (2 * unat i) mem @ [mem ! (2 * unat i + 1), mem ! (2 * unat i)]"
      using inb by (simp add: m take_Suc_conv_app_nth nth_list_update)
    have d1: "drop (2 * Suc (unat i)) ?m = drop (2 * Suc (unat i)) mem"
      by (simp add: m)
    have d2: "drop (2 * unat count) ?m = drop (2 * unat count) mem"
      using lt by (simp add: m)
    have d3: "drop (2 * unat i) mem = mem ! (2 * unat i) # mem ! (2 * unat i + 1) # drop (2 * Suc (unat i)) mem"
      using inb by (simp add: Cons_nth_drop_Suc)
    have "take (2 * Suc k) (drop (2 * unat i) mem)
        = mem ! (2 * unat i) # mem ! (2 * unat i + 1) # take (2 * k) (drop (2 * Suc (unat i)) mem)"
      by (subst d3) simp
    then have sw: "swab_bytes (take (2 * Suc k) (drop (2 * unat i) mem))
        = mem ! (2 * unat i + 1) # mem ! (2 * unat i) # swab_bytes (take (2 * k) (drop (2 * Suc (unat i)) mem))"
      by simp
    show ?thesis
      using True
      by (simp only: swab_loop.simps [of mem count i] if_True IH suc k k' t1 d1 d2 sw) simp
  qed
qed

lemma swab_loop_whole:
  assumes "length mem = unat hb"
  shows "swab_loop mem (hb div 2) 0 = swab_bytes mem"
proof -
  have c: "unat (hb div 2) = unat hb div 2" by (simp add: unat_div)
  then have le: "2 * unat (hb div 2) \<le> length mem" using assms by simp
  have "swab_loop mem (hb div 2) 0 =
      swab_bytes (take (2 * unat (hb div 2)) mem) @ drop (2 * unat (hb div 2)) mem"
    using swab_loop_bytes [of 0 "hb div 2" mem] le by simp
  moreover have "swab_bytes (take (2 * n) xs) @ drop (2 * n) xs = swab_bytes xs"
    if "length xs - 2 * n \<le> 1" for n and xs :: "uint8_t list"
    using that
  proof (induction xs arbitrary: n rule: swab_bytes.induct)
    case (1 a b rest)
    then show ?case by (cases n) simp_all
  qed (case_tac [!] n, simp_all)
  moreover have "length mem - 2 * unat (hb div 2) \<le> 1"
    using assms c by simp
  ultimately show ?thesis by simp
qed

section \<open>Reading: geometry and byte counts\<close>

subsection \<open>One iteration of the read loop\<close>

lemma read_chunk_pregap:
  assumes "frame_size s \<noteq> 0" and "offset s < track_start s"
  shows "read_chunk s e =
     Inr (s\<lparr>offset := offset s + ucast (chunk_amount s e)\<rparr>,
          replicate (unat (chunk_amount s e)) 0)"
  using assms by (simp add: read_chunk_def chunk_amount_def Let_def)

lemma read_chunk_data:
  assumes "frame_size s \<noteq> 0" and "\<not> offset s < track_start s" and "frames_per_hunk s \<noteq> 0"
  shows "read_chunk s e =
     (case chdstream_load_hunk s (hunk_of s (offset s)) of
        (False, s') \<Rightarrow> Inl Aborted
      | (True, s') \<Rightarrow>
          let src = unat (ucast (offset s mod ucast (frame_size s)) :: uint32_t)
                    + unat ((ucast (ucast (track_frame s)
                         + (offset s - track_start s) div ucast (frame_size s)) :: uint32_t)
                        mod frames_per_hunk s * unitbytes (chd_get_header (chd s)))
                    + unat (frame_offset s')
          in if length (hunkmem s') < src + unat (chunk_amount s e) then Inl OutOfBounds
             else Inr (s'\<lparr>offset := offset s' + ucast (chunk_amount s e)\<rparr>,
                       take (unat (chunk_amount s e)) (drop src (hunkmem s'))))"
  using assms
  by (auto simp: read_chunk_def chunk_amount_def hunk_of_def Let_def split: prod.splits bool.splits)

lemma load_hunk_length:
  assumes "chdstream_load_hunk s h = (b, s')"
    and "length (hunkmem s) = unat (hunkbytes (chd_get_header (chd s)))"
    and "list_all (\<lambda>h. case h of None \<Rightarrow> True
           | Some d \<Rightarrow> length d = unat (hunkbytes (chd_get_header (chd s)))) (hunks (chd s))"
  shows "length (hunkmem s') = unat (hunkbytes (chd_get_header (chd s)))"
proof (cases "h = hunknum s")
  case True
  then show ?thesis using assms by (simp add: chdstream_load_hunk_def)
next
  case False
  show ?thesis
  proof (cases "unat h < length (hunks (chd s))")
    case out: False
    then show ?thesis
      using assms False by (auto simp: chdstream_load_hunk_def chd_read_def)
  next
    case inb: True
    show ?thesis
    proof (cases "hunks (chd s) ! unat h")
      case None
      then show ?thesis
        using assms False inb by (auto simp: chdstream_load_hunk_def chd_read_def)
    next
      case (Some d)
      have "Some d \<in> set (hunks (chd s))"
        using inb Some by (metis nth_mem)
      then have len: "length d = unat (hunkbytes (chd_get_header (chd s)))"
        using assms(3) by (auto simp: list_all_iff)
      have "length (swab_loop d (hunkbytes (chd_get_header (chd s)) div 2) 0) = length d"
        using swab_loop_whole [OF len] by simp
      then show ?thesis
        using assms False inb Some len
        by (auto simp: chdstream_load_hunk_def chd_read_def chd_get_header_def split: if_splits)
    qed
  qed
qed

lemma load_hunk_geometry:
  assumes "chdstream_load_hunk s h = (b, s')" and "geometry_ok s"
  shows "geometry_ok s'"
proof -
  have hd: "chd_get_header (chd s') = chd_get_header (chd s)"
    using load_hunk_fields(9) [OF assms(1)] by (simp add: chd_get_header_def)
  have "length (hunkmem s') = unat (hunkbytes (chd_get_header (chd s)))"
    using load_hunk_length [OF assms(1)] assms(2) by (simp add: geometry_ok_def Let_def)
  then show ?thesis
    using assms(2) load_hunk_fields [OF assms(1)] hd
    by (simp add: geometry_ok_def Let_def)
qed

lemma unat_hunk_offset:
  assumes "fph \<noteq> 0" and "unat fph * unat ub \<le> unat hb"
  shows "unat ((cf :: uint32_t) mod fph * ub) = (unat cf mod unat fph) * unat ub"
    and "(unat cf mod unat fph) * unat ub + unat ub \<le> unat (hb :: uint32_t)"
proof -
  have pos: "0 < unat fph" using assms(1) by (simp add: unat_gt_0)
  then have "unat cf mod unat fph < unat fph" by simp
  then have "Suc (unat cf mod unat fph) \<le> unat fph" by simp
  then have "Suc (unat cf mod unat fph) * unat ub \<le> unat fph * unat ub"
    by (rule mult_le_mono1)
  then show le: "(unat cf mod unat fph) * unat ub + unat ub \<le> unat hb"
    using assms(2) by simp
  have "(unat cf mod unat fph) * unat ub < 2 ^ 32"
    using le unat_lt_2p32 [of hb] by simp
  then have "unat (cf mod fph) * unat ub < 2 ^ LENGTH(32)"
    by (simp add: unat_mod)
  then have "unat (cf mod fph * ub) = unat (cf mod fph) * unat ub"
    by (simp only: unat_mult_lem)
  then show "unat (cf mod fph * ub) = (unat cf mod unat fph) * unat ub"
    by (simp add: unat_mod)
qed

lemma chunk_in_bounds:
  assumes g: "geometry_ok s" and lt: "offset s < e"
  shows "unat (ucast (offset s mod ucast (frame_size s)) :: uint32_t)
         + unat (cf mod frames_per_hunk s * unitbytes (chd_get_header (chd s)))
         + unat (chunk_amount s e)
       \<le> unat (hunkbytes (chd_get_header (chd s)))"
proof -
  let ?hd = "chd_get_header (chd s)"
  have fs: "frame_size s \<noteq> 0" and fph: "frames_per_hunk s \<noteq> 0"
    and le: "unat (frame_size s) \<le> unat (unitbytes ?hd)"
    and prod: "unat (frames_per_hunk s) * unat (unitbytes ?hd) \<le> unat (hunkbytes ?hd)"
    using g by (simp_all add: geometry_ok_def Let_def word_le_nat_alt)
  have a: "unat (offset s) mod unat (frame_size s) + unat (chunk_amount s e) \<le> unat (frame_size s)"
    using chunk_amount_bounds(3) [OF fs lt] by (simp add: unat_mod unat_ucast_32_64)
  have fo: "unat (ucast (offset s mod ucast (frame_size s)) :: uint32_t)
      = unat (offset s) mod unat (frame_size s)"
    using fs by (rule unat_frame_offs)
  note ho = unat_hunk_offset [OF fph prod, of cf]
  show ?thesis
    using a le ho(2) by (simp add: fo ho(1))
qed

lemma read_chunk_geometry:
  assumes g: "geometry_ok s" and lt: "offset s < e"
  shows "read_chunk s e = Inl c \<Longrightarrow> c = Aborted"
    and "read_chunk s e = Inr (s', bs) \<Longrightarrow> geometry_ok s'"
proof -
  have fs: "frame_size s \<noteq> 0" and fph: "frames_per_hunk s \<noteq> 0" and fo0: "frame_offset s = 0"
    using g by (simp_all add: geometry_ok_def Let_def)
  show "c = Aborted" if r: "read_chunk s e = Inl c"
  proof (cases "offset s < track_start s")
    case True
    then show ?thesis using r by (simp add: read_chunk_pregap [OF fs])
  next
    case False
    obtain b t where l: "chdstream_load_hunk s (hunk_of s (offset s)) = (b, t)"
      by (cases "chdstream_load_hunk s (hunk_of s (offset s))")
    have gt: "geometry_ok t" using l g by (rule load_hunk_geometry)
    have len: "length (hunkmem t) = unat (hunkbytes (chd_get_header (chd s)))"
      using gt load_hunk_fields(9) [OF l] by (simp add: geometry_ok_def Let_def chd_get_header_def)
    have t0: "frame_offset t = 0" using load_hunk_fields(3) [OF l] fo0 by simp
    let ?cf = "ucast (ucast (track_frame s)
        + (offset s - track_start s) div ucast (frame_size s)) :: uint32_t"
    have "\<not> length (hunkmem t)
        < unat (ucast (offset s mod ucast (frame_size s)) :: uint32_t)
          + unat (?cf mod frames_per_hunk s * unitbytes (chd_get_header (chd s)))
          + unat (frame_offset t) + unat (chunk_amount s e)"
      using chunk_in_bounds [OF g lt, of ?cf] by (simp add: len t0)
    then show ?thesis
      using r l by (cases b) (simp_all add: read_chunk_data [OF fs False fph] Let_def)
  qed
  show "geometry_ok s'" if r: "read_chunk s e = Inr (s', bs)"
  proof (cases "offset s < track_start s")
    case True
    then show ?thesis
      using r g by (auto simp: read_chunk_pregap [OF fs] geometry_ok_def Let_def)
  next
    case False
    obtain b t where l: "chdstream_load_hunk s (hunk_of s (offset s)) = (b, t)"
      by (cases "chdstream_load_hunk s (hunk_of s (offset s))")
    have gt: "geometry_ok t" using l g by (rule load_hunk_geometry)
    then have "geometry_ok (t\<lparr>offset := x\<rparr>)" for x
      by (simp add: geometry_ok_def Let_def)
    then show ?thesis
      using r l
      by (cases b) (auto simp: read_chunk_data [OF fs False fph] Let_def split: if_splits)
  qed
qed

lemma read_chunk_fields:
  assumes "read_chunk s e = Inr (s', bs)"
  shows "frame_size s' = frame_size s" and "frames_per_hunk s' = frames_per_hunk s"
    and "track_frame s' = track_frame s" and "track_start s' = track_start s"
    and "track_end s' = track_end s" and "swab s' = swab s"
    and "header (chd s') = header (chd s)" and "hunks (chd s') = hunks (chd s)"
  using assms
  by (auto simp: read_chunk_def Let_def
           split: if_splits prod.splits bool.splits dest: load_hunk_fields)

subsection \<open>The read loop\<close>

lemma read_loop_done: "\<not> offset s < e \<Longrightarrow> read_loop s e out = Inr (s, out)"
  by (simp add: read_loop.simps [of s e out])

lemma read_loop_step:
  "offset s < e \<Longrightarrow> read_chunk s e = Inr (s', bs) \<Longrightarrow> read_loop s e out = read_loop s' e (out @ bs)"
  by (simp add: read_loop.simps [of s e out])

lemma read_loop_crash:
  "offset s < e \<Longrightarrow> read_chunk s e = Inl c \<Longrightarrow> read_loop s e out = Inl c"
  by (simp add: read_loop.simps [of s e out])

lemma read_chunk_advance:
  assumes r: "read_chunk s e = Inr (s', bs)" and lt: "offset s < e"
  shows "unat (offset s') = unat (offset s) + length bs" and "0 < length bs"
    and "offset s' \<le> e"
proof -
  note fs = read_chunk_Inr(1) [OF r lt]
  show "unat (offset s') = unat (offset s) + length bs"
    by (simp add: read_chunk_Inr(2,3) [OF r lt] unat_offset_advance [OF fs lt])
  then show "offset s' \<le> e"
    using chunk_amount_bounds(2) [OF fs lt]
    by (simp add: word_le_nat_alt read_chunk_Inr(2) [OF r lt])
  show "0 < length bs"
    using chunk_amount_bounds(1) [OF fs lt] by (simp add: read_chunk_Inr(2) [OF r lt])
qed

lemma read_loop_result:
  assumes "read_loop s e out = Inr (s', out')" and "offset s \<le> e"
  shows "offset s' = e \<and> length out' = length out + (unat e - unat (offset s))
     \<and> frame_size s' = frame_size s \<and> frames_per_hunk s' = frames_per_hunk s
     \<and> track_frame s' = track_frame s \<and> track_start s' = track_start s
     \<and> track_end s' = track_end s \<and> swab s' = swab s
     \<and> header (chd s') = header (chd s) \<and> hunks (chd s') = hunks (chd s)"
  using assms
proof (induction s e out rule: read_loop.induct)
  case (1 s e out)
  show ?case
  proof (cases "offset s < e")
    case False
    then have "offset s = e" using "1.prems"(2) by simp
    then show ?thesis using "1.prems"(1) False by (simp add: read_loop_done)
  next
    case True
    show ?thesis
    proof (cases "read_chunk s e")
      case (Inl c)
      then show ?thesis using "1.prems"(1) True by (simp add: read_loop_crash)
    next
      case (Inr p)
      obtain t bs where p: "p = (t, bs)" by (cases p)
      have r: "read_chunk s e = Inr (t, bs)" using Inr p by simp
      have loop: "read_loop t e (out @ bs) = Inr (s', out')"
        using "1.prems"(1) read_loop_step [OF True r] by simp
      note adv = read_chunk_advance [OF r True]
      have le: "unat (offset t) \<le> unat e" using adv(3) by (simp add: word_le_nat_alt)
      from "1.IH" [OF True Inr p [symmetric] loop adv(3)]
      show ?thesis
        using adv(1) le read_chunk_fields [OF r] by simp
    qed
  qed
qed

lemma read_loop_crash_kind:
  assumes "read_loop s e out = Inl c" and "geometry_ok s"
  shows "c = Aborted"
  using assms
proof (induction s e out rule: read_loop.induct)
  case (1 s e out)
  show ?case
  proof (cases "offset s < e")
    case False
    then show ?thesis using "1.prems"(1) by (simp add: read_loop_done)
  next
    case True
    show ?thesis
    proof (cases "read_chunk s e")
      case (Inl c')
      then have "c' = Aborted" using read_chunk_geometry(1) [OF "1.prems"(2) True] by simp
      then show ?thesis using "1.prems"(1) True Inl by (simp add: read_loop_crash)
    next
      case (Inr p)
      obtain t bs where p: "p = (t, bs)" by (cases p)
      have r: "read_chunk s e = Inr (t, bs)" using Inr p by simp
      have loop: "read_loop t e (out @ bs) = Inl c"
        using "1.prems"(1) read_loop_step [OF True r] by simp
      have "geometry_ok t" using read_chunk_geometry(2) [OF "1.prems"(2) True r] .
      with "1.IH" [OF True Inr p [symmetric] loop] show ?thesis .
    qed
  qed
qed

lemma read_loop_geometry:
  assumes "read_loop s e out = Inr (s', out')" and "geometry_ok s"
  shows "geometry_ok s'"
  using assms
proof (induction s e out rule: read_loop.induct)
  case (1 s e out)
  show ?case
  proof (cases "offset s < e")
    case False
    then show ?thesis using "1.prems" by (simp add: read_loop_done)
  next
    case True
    show ?thesis
    proof (cases "read_chunk s e")
      case (Inl c)
      then show ?thesis using "1.prems"(1) True by (simp add: read_loop_crash)
    next
      case (Inr p)
      obtain t bs where p: "p = (t, bs)" by (cases p)
      have r: "read_chunk s e = Inr (t, bs)" using Inr p by simp
      have loop: "read_loop t e (out @ bs) = Inr (s', out')"
        using "1.prems"(1) read_loop_step [OF True r] by simp
      have "geometry_ok t" using read_chunk_geometry(2) [OF "1.prems"(2) True r] .
      with "1.IH" [OF True Inr p [symmetric] loop] show ?thesis .
    qed
  qed
qed

subsection \<open>The number of bytes read\<close>

lemma read_clamp:
  "(if track_end s - offset s < bytes then track_end s - offset s else bytes)
     = min bytes (track_end s - offset s)"
proof (cases "track_end s - offset s < bytes")
  case True
  then have "min bytes (track_end s - offset s) = track_end s - offset s"
    by (intro min_absorb2) (rule less_imp_le)
  with True show ?thesis by simp
next
  case False
  then have "min bytes (track_end s - offset s) = bytes"
    by (intro min_absorb1) (simp add: not_less)
  with False show ?thesis by simp
qed

lemma unat_min_word: "unat (min a b) = min (unat a) (unat b)" for a b :: "'a::len word"
  by (simp add: min_def word_le_nat_alt)

lemma sint_small: "unat (w :: 64 word) < 2 ^ 63 \<Longrightarrow> sint w = int (unat w)"
proof -
  assume a: "unat w < 2 ^ 63"
  have u: "uint w = int (unat w)" by (rule uint_nat)
  have "int (unat w) < int (2 ^ 63)" using a by (simp only: of_nat_less_iff)
  then have "int (unat w) < 2 ^ 63" by simp
  moreover have "- (2 ^ 63) \<le> int (unat w)"
  proof -
    have "(0 :: int) \<le> int (unat w)" by simp
    moreover have "- (2 ^ 63) \<le> (0 :: int)" by simp
    ultimately show ?thesis by (rule order_trans [rotated])
  qed
  ultimately have "signed_take_bit 63 (int (unat w)) = int (unat w)"
    by (simp add: signed_take_bit_int_eq_self)
  moreover have "sint w = signed_take_bit 63 (uint w)"
    using sint_uint [of w] by simp
  ultimately show ?thesis by (simp only: u)
qed

lemma read_end:
  assumes "offset s \<le> track_end s"
  shows "unat (offset s + min bytes (track_end s - offset s))
           = unat (offset s) + unat (min bytes (track_end s - offset s))"
    and "offset s \<le> offset s + min bytes (track_end s - offset s)"
    and "offset s + min bytes (track_end s - offset s) \<le> track_end s"
proof -
  have d: "unat (track_end s - offset s) = unat (track_end s) - unat (offset s)"
    using assms by (simp add: unat_sub)
  have le: "unat (offset s) \<le> unat (track_end s)"
    using assms by (simp add: word_le_nat_alt)
  have m: "unat (min bytes (track_end s - offset s)) \<le> unat (track_end s) - unat (offset s)"
    by (simp add: unat_min_word d)
  then have "unat (offset s) + unat (min bytes (track_end s - offset s)) < 2 ^ 64"
    using le unat_lt_2p64 [of "track_end s"] by simp
  then show u: "unat (offset s + min bytes (track_end s - offset s))
           = unat (offset s) + unat (min bytes (track_end s - offset s))"
    using unat_add_lem [of "offset s" "min bytes (track_end s - offset s)"] by simp
  show "offset s \<le> offset s + min bytes (track_end s - offset s)"
    by (simp add: word_le_nat_alt u)
  show "offset s + min bytes (track_end s - offset s) \<le> track_end s"
    using m le by (simp add: word_le_nat_alt u)
qed

lemma read_unfold:
  "chdstream_read s n =
     (case read_loop s (offset s + min n (track_end s - offset s)) [] of
        Inl c \<Rightarrow> Inl c
      | Inr (s', out) \<Rightarrow> Inr (min n (track_end s - offset s), s', out))"
  by (simp only: chdstream_read_def read_clamp Let_def)

lemma read_outcome:
  assumes g: "geometry_ok s" and inv: "offset s \<le> track_end s"
  shows "chdstream_read s bytes = Inl Aborted
     \<or> (\<exists>s' out. chdstream_read s bytes = Inr (min bytes (track_end s - offset s), s', out)
           \<and> length out = unat (min bytes (track_end s - offset s))
           \<and> offset s' = offset s + min bytes (track_end s - offset s)
           \<and> track_end s' = track_end s \<and> track_start s' = track_start s
           \<and> geometry_ok s')"
proof -
  let ?n = "min bytes (track_end s - offset s)"
  let ?e = "offset s + ?n"
  note e = read_end [OF inv, of bytes]
  show ?thesis
  proof (cases "read_loop s ?e []")
    case (Inl c)
    then have "c = Aborted" using g by (rule read_loop_crash_kind)
    then show ?thesis using Inl by (simp add: chdstream_read_def read_clamp Let_def)
  next
    case (Inr p)
    obtain s' out where p: "p = (s', out)" by (cases p)
    have loop: "read_loop s ?e [] = Inr (s', out)" using Inr p by simp
    note res = read_loop_result [OF loop e(2)]
    have "geometry_ok s'" using loop g by (rule read_loop_geometry)
    moreover have "length out = unat ?n" using res e(1) by simp
    ultimately show ?thesis
      using loop res by (simp add: chdstream_read_def read_clamp Let_def)
  qed
qed

lemma load_hunk_succeeds:
  assumes "hunk_loads (chd s) h"
  shows "fst (chdstream_load_hunk s h)"
  using assms
  by (auto simp: hunk_loads_def chdstream_load_hunk_def chd_read_def)

lemma read_chunk_no_abort:
  assumes "track_start s \<le> offset s \<longrightarrow> hunk_loads (chd s) (hunk_of s (offset s))"
  shows "read_chunk s e \<noteq> Inl Aborted"
proof (cases "frame_size s = 0")
  case True
  then show ?thesis by (simp add: read_chunk_def)
next
  case fs: False
  show ?thesis
  proof (cases "offset s < track_start s")
    case True
    then show ?thesis by (simp add: read_chunk_pregap [OF fs])
  next
    case d: False
    show ?thesis
    proof (cases "frames_per_hunk s = 0")
      case True
      then show ?thesis using fs d by (simp add: read_chunk_def Let_def)
    next
      case fph: False
      have "hunk_loads (chd s) (hunk_of s (offset s))" using assms d by (simp add: not_less)
      then have "fst (chdstream_load_hunk s (hunk_of s (offset s)))"
        by (rule load_hunk_succeeds)
      then show ?thesis
        by (cases "chdstream_load_hunk s (hunk_of s (offset s))")
           (auto simp: read_chunk_data [OF fs d fph] Let_def split: if_splits)
    qed
  qed
qed

lemma read_loop_no_abort:
  assumes "\<forall>pos. offset s \<le> pos \<and> pos < e \<and> track_start s \<le> pos
             \<longrightarrow> hunk_loads (chd s) (hunk_of s pos)"
  shows "read_loop s e out \<noteq> Inl Aborted"
  using assms
proof (induction s e out rule: read_loop.induct)
  case (1 s e out)
  show ?case
  proof (cases "offset s < e")
    case False
    then show ?thesis by (simp add: read_loop_done)
  next
    case True
    have c: "read_chunk s e \<noteq> Inl Aborted"
      using "1.prems" True by (intro read_chunk_no_abort) simp
    show ?thesis
    proof (cases "read_chunk s e")
      case (Inl x)
      then show ?thesis using c True by (simp add: read_loop_crash)
    next
      case (Inr p)
      obtain t bs where p: "p = (t, bs)" by (cases p)
      have r: "read_chunk s e = Inr (t, bs)" using Inr p by simp
      note adv = read_chunk_advance [OF r True]
      note f = read_chunk_fields [OF r]
      have le: "offset s \<le> offset t" using adv(1) by (simp add: word_le_nat_alt)
      have ho: "hunk_of t pos = hunk_of s pos" for pos
        using f by (simp add: hunk_of_def)
      have hl: "hunk_loads (chd t) h = hunk_loads (chd s) h" for h
        using f by (simp add: hunk_loads_def)
      have "read_loop t e (out @ bs) \<noteq> Inl Aborted"
      proof (rule "1.IH" [OF True Inr p [symmetric]])
        show "\<forall>pos. offset t \<le> pos \<and> pos < e \<and> track_start t \<le> pos
             \<longrightarrow> hunk_loads (chd t) (hunk_of t pos)"
          using "1.prems" le f(4) by (auto simp: ho hl)
      qed
      then show ?thesis using read_loop_step [OF True r] by simp
    qed
  qed
qed

lemma read_no_abort:
  assumes "\<forall>pos. offset s \<le> pos \<and> pos < offset s + min n (track_end s - offset s)
               \<and> track_start s \<le> pos
             \<longrightarrow> hunk_loads (chd s) (hunk_of s pos)"
  shows "chdstream_read s n \<noteq> Inl Aborted"
  using read_loop_no_abort [OF assms, of "[]"]
  by (auto simp: read_unfold split: sum.splits)

lemma read_Inr:
  assumes "chdstream_read s n = Inr (k, s', out)" and "offset s \<le> track_end s"
  shows "k = min n (track_end s - offset s)" and "offset s' = offset s + k"
    and "offset s' \<le> track_end s'" and "track_start s' = track_start s"
    and "track_end s' = track_end s" and "length out = unat k"
proof -
  let ?k = "min n (track_end s - offset s)"
  have loop: "read_loop s (offset s + ?k) [] = Inr (s', out)" and k: "k = ?k"
    using assms(1) by (auto simp: read_unfold split: sum.splits)
  note e = read_end [OF assms(2), of n]
  note res = read_loop_result [OF loop e(2)]
  show "k = ?k" by (rule k)
  show "offset s' = offset s + k" using res k by simp
  show "track_start s' = track_start s" and "track_end s' = track_end s" using res by simp_all
  show "offset s' \<le> track_end s'" using res e(3) by simp
  show "length out = unat k" using res e(1) k by simp
qed

text \<open>
  Claim C1, amended. Take a stream whose cursor is not beyond the end of the track, and
  any requested byte count. A read that returns returns exactly the minimum of the
  request and of what is left of the track, which is never more than the request, has
  stored that many bytes, and has advanced the cursor reported by \<open>tell\<close> by that count,
  leaving it within the track. The count is the value returned read as an unsigned
  number, and also as a signed one when it is below \<open>2^63\<close>. And the read does return
  when every required hunk load succeeds and the geometry of the stream is sound
  (\<open>geometry_ok\<close>): frame size and frames per hunk are not zero, the frame size is not
  above the unit size, the frames of a hunk fit the hunk size, the data offset within a
  frame is zero, and the hunk buffer and every hunk that the engine delivers have the
  hunk size. With that geometry, a read does not abort if the engine can deliver the hunk
  of every data byte of the clamped range, and a read that does not abort returns, the
  geometry being sound afterwards as well.
\<close>

theorem read_returns_clamped_count:
  assumes "offset stream \<le> track_end stream"
  shows "(\<forall>n stream' out.
            chdstream_read stream bytes = Inr (n, stream', out)
            \<longrightarrow> n = min bytes (track_end stream - offset stream)
                \<and> unat n = min (unat bytes) (unat (track_end stream) - unat (offset stream))
                \<and> (unat n < 2 ^ 63 \<longrightarrow> sint n = int (unat n))
                \<and> n \<le> bytes
                \<and> length out = unat n
                \<and> chdstream_tell stream' = chdstream_tell stream + n
                \<and> unat (chdstream_tell stream') = unat (chdstream_tell stream) + unat n
                \<and> offset stream' \<le> track_end stream')
     \<and> (geometry_ok stream
          \<longrightarrow> ((\<forall>pos. offset stream \<le> pos
                      \<and> pos < offset stream + min bytes (track_end stream - offset stream)
                      \<and> track_start stream \<le> pos
                    \<longrightarrow> hunk_loads (chd stream) (hunk_of stream pos))
                 \<longrightarrow> chdstream_read stream bytes \<noteq> Inl Aborted)
              \<and> (chdstream_read stream bytes \<noteq> Inl Aborted
                 \<longrightarrow> (\<exists>n stream' out.
                        chdstream_read stream bytes = Inr (n, stream', out)
                        \<and> geometry_ok stream')))"
proof (intro conjI allI impI)
  fix n stream' out
  assume r: "chdstream_read stream bytes = Inr (n, stream', out)"
  let ?n = "min bytes (track_end stream - offset stream)"
  note a = read_Inr [OF r assms]
  note e = read_end [OF assms, of bytes]
  show n: "n = ?n" by (rule a(1))
  show "unat n = min (unat bytes) (unat (track_end stream) - unat (offset stream))"
    using assms by (simp add: n unat_min_word unat_sub)
  show "sint n = int (unat n)" if "unat n < 2 ^ 63"
    using that by (rule sint_small)
  show "n \<le> bytes" unfolding n by (rule min.cobounded1)
  show "length out = unat n" by (rule a(6))
  show "chdstream_tell stream' = chdstream_tell stream + n"
    by (simp add: chdstream_tell_def a(2))
  show "unat (chdstream_tell stream') = unat (chdstream_tell stream) + unat n"
    using e(1) by (simp only: chdstream_tell_def a(2) n)
  show "offset stream' \<le> track_end stream'" by (rule a(3))
next
  assume "geometry_ok stream"
    and "\<forall>pos. offset stream \<le> pos
              \<and> pos < offset stream + min bytes (track_end stream - offset stream)
              \<and> track_start stream \<le> pos
            \<longrightarrow> hunk_loads (chd stream) (hunk_of stream pos)"
  then show "chdstream_read stream bytes \<noteq> Inl Aborted" by (intro read_no_abort)
next
  assume g: "geometry_ok stream" and ok: "chdstream_read stream bytes \<noteq> Inl Aborted"
  show "\<exists>n stream' out. chdstream_read stream bytes = Inr (n, stream', out) \<and> geometry_ok stream'"
    using read_outcome [OF g assms, of bytes] ok by auto
qed

lemma ex_stream_geometry: "geometry_ok (ex_stream\<lparr>offset := x\<rparr>)"
  by (simp add: geometry_ok_def ex_stream_def ex_chd_def chd_get_header_def)

text \<open>The data bytes among the first six of the example stream lie in hunk 0.\<close>

lemma ex_stream_positions:
  "\<forall>pos. offset ex_stream \<le> pos
       \<and> pos < offset ex_stream + min 6 (track_end ex_stream - offset ex_stream)
       \<and> track_start ex_stream \<le> pos
     \<longrightarrow> hunk_loads (chd ex_stream) (hunk_of ex_stream pos)"
proof (intro allI impI)
  fix pos :: size_t
  assume "offset ex_stream \<le> pos
       \<and> pos < offset ex_stream + min 6 (track_end ex_stream - offset ex_stream)
       \<and> track_start ex_stream \<le> pos"
  then have a: "4 \<le> pos \<and> pos < 6" by (simp add: ex_stream_def)
  then have "unat (pos - 4) = unat pos - 4" by (simp add: unat_sub)
  moreover have "unat pos < 6" using a by (simp add: word_less_nat_alt)
  ultimately have "pos - 4 < 4" by (simp add: word_less_nat_alt)
  then have "(pos - 4) div 4 = 0" by (rule div_word_less)
  then have "hunk_of ex_stream pos = 0"
    by (simp add: hunk_of_def ex_stream_def)
  then show "hunk_loads (chd ex_stream) (hunk_of ex_stream pos)"
    by (simp add: hunk_loads_def ex_stream_def ex_chd_def)
qed

text \<open>
  Witness for C1: six bytes read from the start of the example stream, four of pregap
  and two of data from a hunk that the engine can deliver; and a read of five bytes at
  the end of the track, which returns none.
\<close>

theorem read_returns_clamped_count_witness:
  "offset ex_stream \<le> track_end ex_stream
   \<and> geometry_ok ex_stream
   \<and> chdstream_read ex_stream 6 \<noteq> Inl Aborted
   \<and> (\<exists>stream'. chdstream_read ex_stream 6 = Inr (6, stream', [0, 0, 0, 0, 0x11, 0x12])
         \<and> chdstream_tell stream' = 6)
   \<and> offset (ex_stream\<lparr>offset := 20\<rparr>) \<le> track_end (ex_stream\<lparr>offset := 20\<rparr>)
   \<and> geometry_ok (ex_stream\<lparr>offset := 20\<rparr>)
   \<and> chdstream_read (ex_stream\<lparr>offset := 20\<rparr>) 5 = Inr (0, ex_stream\<lparr>offset := 20\<rparr>, [])"
proof -
  have g: "geometry_ok ex_stream"
    using ex_stream_geometry [of 0] by (simp add: ex_stream_def)
  have inv: "offset ex_stream \<le> track_end ex_stream" by (simp add: ex_stream_def)
  note count = read_returns_clamped_count [OF inv, of 6]
  have ok: "chdstream_read ex_stream 6 \<noteq> Inl Aborted"
    using count g ex_stream_positions by blast
  then obtain n stream' out where r: "chdstream_read ex_stream 6 = Inr (n, stream', out)"
    using count g by blast
  have n: "n = min 6 (track_end ex_stream - offset ex_stream)"
    and t: "chdstream_tell stream' = chdstream_tell ex_stream + n"
    using count r by blast+
  have n6: "n = 6" using n by (simp add: ex_stream_def)
  have "chdstream_read ex_stream 6
      = Inr (6, ex_stream\<lparr>chd := ex_chd\<lparr>read_calls := [0]\<rparr>, offset := 6, hunknum := 0,
                   hunkmem := [0x11, 0x12, 0x13, 0x14, 0x15, 0x16, 0x17, 0x18]\<rparr>,
             [0, 0, 0, 0, 0x11, 0x12])"
    by code_simp
  then have out: "out = [0, 0, 0, 0, 0x11, 0x12]" using r by simp
  have six: "\<exists>stream'. chdstream_read ex_stream 6 = Inr (6, stream', [0, 0, 0, 0, 0x11, 0x12])
         \<and> chdstream_tell stream' = 6"
    using r t n6 out by (auto simp: ex_stream_def chdstream_tell_def)
  have g20: "geometry_ok (ex_stream\<lparr>offset := 20\<rparr>)" by (rule ex_stream_geometry)
  have inv20: "offset (ex_stream\<lparr>offset := 20\<rparr>) \<le> track_end (ex_stream\<lparr>offset := 20\<rparr>)"
    by (simp add: ex_stream_def)
  have r20: "chdstream_read (ex_stream\<lparr>offset := 20\<rparr>) 5 = Inr (0, ex_stream\<lparr>offset := 20\<rparr>, [])"
    by code_simp
  show ?thesis
    using inv g ok six inv20 g20 r20 by (intro conjI)
qed

text \<open>
  Claim C1 as stated, for every stream with its cursor within the track, fails on a
  stream that \<^verbatim>\<open>chdstream_open\<close> builds from a header whose unit is larger than its hunk:
  \<^verbatim>\<open>frames_per_hunk\<close> is 0, and a read of one byte at offset 0, with 32 bytes left and no
  hunk of the container failing, divides by it before any hunk is asked for, and returns
  nothing.
\<close>

theorem read_divides_by_zero_counterexample:
  "chdstream_open 0 (Some ex_bad_chd) 1 True (Some (\<lambda>_. 0)) = Some (Opened ex_bad_stream)
   \<and> offset ex_bad_stream \<le> track_end ex_bad_stream
   \<and> None \<notin> set (hunks (chd ex_bad_stream))
   \<and> min 1 (track_end ex_bad_stream - offset ex_bad_stream) = 1
   \<and> frames_per_hunk ex_bad_stream = 0
   \<and> chdstream_read ex_bad_stream 1 = Inl DivByZero"
proof -
  have "chdstream_open 0 (Some ex_bad_chd) 1 True (Some (\<lambda>_. 0)) = Some (Opened ex_bad_stream)"
    by code_simp
  moreover have "chdstream_read ex_bad_stream 1 = Inl DivByZero"
    by code_simp
  moreover have "offset ex_bad_stream \<le> track_end ex_bad_stream
      \<and> None \<notin> set (hunks (chd ex_bad_stream))
      \<and> min 1 (track_end ex_bad_stream - offset ex_bad_stream) = 1
      \<and> frames_per_hunk ex_bad_stream = 0"
    by (simp add: ex_bad_stream_def ex_bad_chd_def)
  ultimately show ?thesis by simp
qed

section \<open>Opening a track\<close>

lemma open_frame_size:
  "(if type meta = ''MODE1_RAW'' then SECTOR_SIZE
    else if type meta = ''MODE2_RAW'' then SECTOR_SIZE
    else if type meta = ''AUDIO'' then SECTOR_SIZE
    else unitbytes h) = track_frame_size h meta"
  by (simp only: track_frame_size_def SECTOR_SIZE_def insert_iff empty_iff) presburger

lemma open_unfold:
  "chdstream_open fuel (Some chd0) trk calloc_ok heap =
     (case chdstream_find_track fuel chd0 trk of
        None \<Rightarrow> None
      | Some (found, meta) \<Rightarrow>
          if \<not> found \<or> \<not> calloc_ok then Some OpenFailed
          else
            (case heap of
               None \<Rightarrow> Some OpenFailed
             | Some junk \<Rightarrow>
                 if unitbytes (header chd0) = 0 then Some (OpenCrashed DivByZero)
                 else Some (Opened
                   \<lparr>chd = chd0, swab = (type meta = ''AUDIO''),
                    frame_size = track_frame_size (header chd0) meta, frame_offset = 0,
                    frames_per_hunk = hunkbytes (header chd0) div unitbytes (header chd0),
                    track_frame = metadata_t.frame_offset meta,
                    track_start = ucast (counted_pregap meta)
                                    * ucast (track_frame_size (header chd0) meta),
                    track_end = ucast (counted_pregap meta)
                                    * ucast (track_frame_size (header chd0) meta)
                                + ucast (frames meta)
                                    * ucast (track_frame_size (header chd0) meta),
                    offset = 0, hunknum = - 1,
                    hunkmem = map junk [0..<unat (hunkbytes (header chd0))]\<rparr>)))"
  unfolding chdstream_open_def malloc_def chd_get_header_def Let_def open_frame_size
    counted_pregap_def [symmetric]
  by (simp split: option.splits prod.splits)

lemma open_Opened:
  assumes "chdstream_open fuel opened trk calloc_ok heap = Some (Opened s)"
  shows "\<exists>chd0 meta junk.
     opened = Some chd0 \<and> chdstream_find_track fuel chd0 trk = Some (True, meta)
     \<and> calloc_ok \<and> heap = Some junk \<and> unitbytes (header chd0) \<noteq> 0
     \<and> s = \<lparr>chd = chd0, swab = (type meta = ''AUDIO''),
              frame_size = track_frame_size (header chd0) meta, frame_offset = 0,
              frames_per_hunk = hunkbytes (header chd0) div unitbytes (header chd0),
              track_frame = metadata_t.frame_offset meta,
              track_start = ucast (counted_pregap meta)
                              * ucast (track_frame_size (header chd0) meta),
              track_end = ucast (counted_pregap meta)
                              * ucast (track_frame_size (header chd0) meta)
                          + ucast (frames meta) * ucast (track_frame_size (header chd0) meta),
              offset = 0, hunknum = - 1,
              hunkmem = map junk [0..<unat (hunkbytes (header chd0))]\<rparr>"
proof (cases opened)
  case None
  then show ?thesis using assms by (simp add: chdstream_open_def)
next
  case (Some chd0)
  show ?thesis
    using assms unfolding Some open_unfold
    by (simp split: option.splits prod.splits if_splits)
qed

lemma open_not_crashed:
  assumes "unitbytes (header chd0) \<noteq> 0"
  shows "chdstream_open fuel (Some chd0) trk calloc_ok heap \<noteq> Some (OpenCrashed c)"
  using assms unfolding open_unfold
  by (simp split: option.splits prod.splits)


lemma open_geometry:
  assumes o: "chdstream_open fuel (Some chd0) trk calloc_ok heap = Some (Opened s)"
    and hb: "unitbytes (header chd0) \<le> hunkbytes (header chd0)"
    and fs: "frame_size s \<le> unitbytes (header chd0)"
    and wf: "list_all (\<lambda>h. case h of None \<Rightarrow> True
               | Some d \<Rightarrow> length d = unat (hunkbytes (header chd0))) (hunks chd0)"
  shows "geometry_ok s"
proof -
  from open_Opened [OF o] obtain meta junk where
    ub: "unitbytes (header chd0) \<noteq> 0" and
    s: "s = \<lparr>chd = chd0, swab = (type meta = ''AUDIO''),
              frame_size = track_frame_size (header chd0) meta, frame_offset = 0,
              frames_per_hunk = hunkbytes (header chd0) div unitbytes (header chd0),
              track_frame = metadata_t.frame_offset meta,
              track_start = ucast (counted_pregap meta)
                              * ucast (track_frame_size (header chd0) meta),
              track_end = ucast (counted_pregap meta)
                              * ucast (track_frame_size (header chd0) meta)
                          + ucast (frames meta) * ucast (track_frame_size (header chd0) meta),
              offset = 0, hunknum = - 1,
              hunkmem = map junk [0..<unat (hunkbytes (header chd0))]\<rparr>"
    by auto
  let ?ub = "unitbytes (header chd0)" and ?hb = "hunkbytes (header chd0)"
  have ubpos: "0 < unat ?ub" using ub by (simp add: unat_gt_0)
  have le: "unat ?ub \<le> unat ?hb" using hb by (simp add: word_le_nat_alt)
  have d: "unat (?hb div ?ub) = unat ?hb div unat ?ub" by (rule unat_div)
  have "1 \<le> unat ?hb div unat ?ub" using ubpos le by (simp add: Suc_le_eq div_greater_zero_iff)
  then have fph: "?hb div ?ub \<noteq> 0" using d by (metis not_one_le_zero unat_0)
  have prod: "unat (?hb div ?ub) * unat ?ub \<le> unat ?hb" by (simp add: d)
  have fs0: "track_frame_size (header chd0) meta \<noteq> 0"
    using ub by (simp add: track_frame_size_def)
  show ?thesis
    using fs fph prod fs0 wf by (simp add: s geometry_ok_def chd_get_header_def Let_def)
qed

subsection \<open>The states of a stream\<close>

lemma geometry_ok_offset [simp]: "geometry_ok (s\<lparr>offset := x\<rparr>) = geometry_ok s"
  by (simp add: geometry_ok_def Let_def)

lemma seek_result:
  assumes "chdstream_seek t off whence = (r, t')"
  shows "t' = t\<lparr>offset := offset t'\<rparr>"
    and "offset t \<le> track_end t \<Longrightarrow> offset t' \<le> track_end t"
  using assms
  by (auto simp: chdstream_seek_def Let_def not_less split: if_splits)

lemma gets_loop_stream:
  "gets_loop t buffer len off = Inr (t', buffer', off') \<Longrightarrow> t' = t"
proof (induction t buffer len off rule: gets_loop.induct)
  case (1 stream buffer len off)
  show ?case
  proof (cases "off < len")
    case False
    then show ?thesis
      using "1.prems" by (simp add: gets_loop.simps [of stream buffer len off])
  next
    case True
    have g: "chdstream_getc stream = Inr (0, stream)" by (rule getc_returns_zero)
    have ne: "(0 :: int) \<noteq> EOF" by (simp add: EOF_def)
    show ?thesis
    proof (cases "unat off < length buffer")
      case False
      then show ?thesis
        using "1.prems" True g ne by (simp add: gets_loop.simps [of stream buffer len off])
    next
      case inb: True
      have "gets_loop stream (buffer[unat off := word_of_int 0]) len (off + 1)
          = Inr (t', buffer', off')"
        using "1.prems" True g ne inb by (simp add: gets_loop.simps [of stream buffer len off])
      from "1.IH" [OF True g _ ne inb this] show ?thesis by simp
    qed
  qed
qed

lemma gets_stream:
  assumes "chdstream_gets t buffer len = Inr (t', buffer')"
  shows "t' = t"
proof (cases "gets_loop t buffer len 0")
  case (Inl e)
  then show ?thesis using assms by (simp add: chdstream_gets_def)
next
  case (Inr p)
  obtain t1 b1 off1 where p: "p = (t1, b1, off1)" by (cases p)
  have "t1 = t" using Inr p gets_loop_stream by simp
  then show ?thesis
    using assms Inr p by (auto simp: chdstream_gets_def split: if_splits)
qed

lemma reachable_bounds:
  assumes "reachable s t" and "offset s \<le> track_end s"
  shows "offset t \<le> track_end t \<and> track_start t = track_start s \<and> track_end t = track_end s"
  using assms
proof (induction rule: reachable.induct)
  case start
  then show ?case by simp
next
  case (after_read t n k t' out)
  from after_read.IH [OF after_read.prems]
  have inv: "offset t \<le> track_end t"
    and ts: "track_start t = track_start s" and te: "track_end t = track_end s" by blast+
  note r = read_Inr [OF after_read.hyps(2) inv]
  show ?case using r(3,4,5) ts te by simp
next
  case (after_getc t c t')
  have "t' = t" using after_getc.hyps(2) by (simp add: getc_returns_zero)
  with after_getc.IH [OF after_getc.prems] show ?case by auto
next
  case (after_gets t buffer len t' buffer')
  have "t' = t" using after_gets.hyps(2) by (rule gets_stream)
  with after_gets.IH [OF after_gets.prems] show ?case by auto
next
  case (after_seek t off whence r t')
  from after_seek.IH [OF after_seek.prems]
  have inv: "offset t \<le> track_end t"
    and ts: "track_start t = track_start s" and te: "track_end t = track_end s" by blast+
  note sr = seek_result [OF after_seek.hyps(2)]
  have "track_start t' = track_start t \<and> track_end t' = track_end t"
    using sr(1) by (metis chdstream.select_convs(7,8) chdstream.surjective chdstream.update_convs(9))
  then show ?case using sr(2) [OF inv] ts te by simp
next
  case (after_rewind t)
  from after_rewind.IH [OF after_rewind.prems] show ?case
    by (auto simp: chdstream_rewind_def)
qed

lemma reachable_geometry:
  assumes "reachable s t" and "geometry_ok s" and "offset s \<le> track_end s"
  shows "geometry_ok t"
  using assms
proof (induction rule: reachable.induct)
  case start
  then show ?case by simp
next
  case (after_read t n k t' out)
  have g: "geometry_ok t" using after_read.IH [OF after_read.prems] .
  have "read_loop t (offset t + min n (track_end t - offset t)) [] = Inr (t', out)"
    using after_read.hyps(2) by (auto simp: read_unfold split: sum.splits)
  then show ?case using g by (rule read_loop_geometry)
next
  case (after_getc t c t')
  have "t' = t" using after_getc.hyps(2) by (simp add: getc_returns_zero)
  with after_getc.IH [OF after_getc.prems] show ?case by simp
next
  case (after_gets t buffer len t' buffer')
  have "t' = t" using after_gets.hyps(2) by (rule gets_stream)
  with after_gets.IH [OF after_gets.prems] show ?case by simp
next
  case (after_seek t off whence r t')
  have g: "geometry_ok t" using after_seek.IH [OF after_seek.prems] .
  note sr = seek_result [OF after_seek.hyps(2)]
  show ?case using g sr(1) by (metis geometry_ok_offset)
next
  case (after_rewind t)
  from after_rewind.IH [OF after_rewind.prems] show ?case
    by (simp add: chdstream_rewind_def)
qed

subsection \<open>The pregap\<close>





lemma open_ex: "chdstream_open fuel (Some ex_chd) 1 True (Some (\<lambda>_. 0)) = Some (Opened ex_stream)"
  by code_simp


text \<open>
  Claim C10. Neither \<^verbatim>\<open>chdstream_open\<close> nor \<^verbatim>\<open>chdstream_read\<close> tests a divisor or an
  index into the hunk buffer. When the header has a unit size that is not zero and not
  above the hunk size, and the storage engine delivers hunks of the hunk size, opening
  does not divide by zero; and when moreover the frame size of the opened stream is not
  above the unit size, then every state that the stream reaches is a reachable state in
  the sense of C1: the frame size, the frames per hunk and the unit size are not zero, the
  hunk buffer has the hunk size, and no read divides by zero or copies from outside the
  hunk buffer.
\<close>

theorem sound_header_makes_reads_safe:
  assumes "unitbytes (header chd0) \<noteq> 0"
    and "unitbytes (header chd0) \<le> hunkbytes (header chd0)"
    and "list_all (\<lambda>h. case h of None \<Rightarrow> True
           | Some d \<Rightarrow> length d = unat (hunkbytes (header chd0))) (hunks chd0)"
  shows "chdstream_open fuel (Some chd0) trk calloc_ok heap \<noteq> Some (OpenCrashed c)
     \<and> (chdstream_open fuel (Some chd0) trk calloc_ok heap = Some (Opened s)
          \<and> frame_size s \<le> unitbytes (header chd0) \<and> reachable s t
        \<longrightarrow> geometry_ok t \<and> offset t \<le> track_end t
            \<and> frame_size t \<noteq> 0 \<and> frames_per_hunk t \<noteq> 0
            \<and> unitbytes (chd_get_header (chd t)) \<noteq> 0
            \<and> length (hunkmem t) = unat (hunkbytes (chd_get_header (chd t)))
            \<and> chdstream_read t n \<noteq> Inl DivByZero
            \<and> chdstream_read t n \<noteq> Inl OutOfBounds)"
proof (intro conjI impI)
  show "chdstream_open fuel (Some chd0) trk calloc_ok heap \<noteq> Some (OpenCrashed c)"
    using assms(1) by (rule open_not_crashed)
next
  assume a: "chdstream_open fuel (Some chd0) trk calloc_ok heap = Some (Opened s)
          \<and> frame_size s \<le> unitbytes (header chd0) \<and> reachable s t"
  then have o: "chdstream_open fuel (Some chd0) trk calloc_ok heap = Some (Opened s)"
    and fs: "frame_size s \<le> unitbytes (header chd0)" and r: "reachable s t" by simp_all
  have g: "geometry_ok s" using o assms(2) fs assms(3) by (rule open_geometry)
  have "offset s = 0" using open_Opened [OF o] by auto
  then have inv: "offset s \<le> track_end s" by simp
  have gt: "geometry_ok t" using r g inv by (rule reachable_geometry)
  have invt: "offset t \<le> track_end t" using reachable_bounds [OF r inv] by blast
  show "geometry_ok t" by (rule gt)
  show "offset t \<le> track_end t" by (rule invt)
  show "frame_size t \<noteq> 0" and "frames_per_hunk t \<noteq> 0"
    and "length (hunkmem t) = unat (hunkbytes (chd_get_header (chd t)))"
    using gt by (simp_all add: geometry_ok_def Let_def)
  have "frame_size t \<le> unitbytes (chd_get_header (chd t))" and "frame_size t \<noteq> 0"
    using gt by (simp_all add: geometry_ok_def Let_def)
  then show "unitbytes (chd_get_header (chd t)) \<noteq> 0" by auto
  show "chdstream_read t n \<noteq> Inl DivByZero" and "chdstream_read t n \<noteq> Inl OutOfBounds"
    using read_outcome [OF gt invt, of n] by auto
qed

text \<open>
  Witness for C10: the example container meets the conditions; a read of 13 bytes from
  the stream it gives neither divides by zero nor leaves the hunk buffer.
\<close>

theorem sound_header_makes_reads_safe_witness:
  "unitbytes (header ex_chd) \<noteq> 0 \<and> unitbytes (header ex_chd) \<le> hunkbytes (header ex_chd)
   \<and> list_all (\<lambda>h. case h of None \<Rightarrow> True
          | Some d \<Rightarrow> length d = unat (hunkbytes (header ex_chd))) (hunks ex_chd)
   \<and> chdstream_open 0 (Some ex_chd) 1 True (Some (\<lambda>_. 0)) = Some (Opened ex_stream)
   \<and> frame_size ex_stream \<le> unitbytes (header ex_chd)
   \<and> reachable ex_stream ex_stream
   \<and> frame_size ex_stream \<noteq> 0 \<and> frames_per_hunk ex_stream \<noteq> 0
   \<and> chdstream_read ex_stream 13 \<noteq> Inl DivByZero
   \<and> chdstream_read ex_stream 13 \<noteq> Inl OutOfBounds"
proof -
  have h1: "unitbytes (header ex_chd) \<noteq> 0"
    and h2: "unitbytes (header ex_chd) \<le> hunkbytes (header ex_chd)"
    and h3: "list_all (\<lambda>h. case h of None \<Rightarrow> True
          | Some d \<Rightarrow> length d = unat (hunkbytes (header ex_chd))) (hunks ex_chd)"
    by (simp_all add: ex_chd_def)
  have fs: "frame_size ex_stream \<le> unitbytes (header ex_chd)"
    by (simp add: ex_stream_def ex_chd_def)
  have "frame_size ex_stream \<noteq> 0 \<and> frames_per_hunk ex_stream \<noteq> 0
      \<and> chdstream_read ex_stream 13 \<noteq> Inl DivByZero
      \<and> chdstream_read ex_stream 13 \<noteq> Inl OutOfBounds"
    using sound_header_makes_reads_safe [OF h1 h2 h3, of 0 1 True "Some (\<lambda>_. 0)" _ ex_stream ex_stream 13]
      open_ex [of 0] fs reachable.start [of ex_stream]
    by blast
  then show ?thesis
    using h1 h2 h3 open_ex [of 0] fs reachable.start [of ex_stream] by (intro conjI) blast+
qed

section \<open>The hunk cache: hits, misses and engine calls\<close>

lemma load_hunk_hit: "chdstream_load_hunk s (hunknum s) = (True, s)"
  by (simp add: chdstream_load_hunk_def)

text \<open>
  The stream starts with \<^verbatim>\<open>hunknum = -1\<close>, which is the word \<open>0xFFFFFFFF\<close>: a request
  for the hunk of that number, before anything has been loaded, counts as a hit.
\<close>

lemma load_hunk_sentinel:
  "hunknum s = - 1 \<Longrightarrow> chdstream_load_hunk s 0xFFFFFFFF = (True, s)"
  by (simp add: chdstream_load_hunk_def)

lemma load_hunk_miss:
  assumes "h \<noteq> hunknum s" and "unat h < length (hunks (chd s))"
    and "hunks (chd s) ! unat h = Some d"
    and "length d = unat (hunkbytes (header (chd s)))"
  shows "chdstream_load_hunk s h =
     (True, s\<lparr>chd := (chd s)\<lparr>read_calls := read_calls (chd s) @ [h]\<rparr>,
              hunkmem := (if swab s then swab_bytes d else d), hunknum := h\<rparr>)"
  using assms swab_loop_whole [OF assms(4)]
  by (simp add: chdstream_load_hunk_def chd_read_def chd_get_header_def)

lemma load_hunk_failure:
  assumes "h \<noteq> hunknum s"
    and "length (hunks (chd s)) \<le> unat h \<or> hunks (chd s) ! unat h = None"
  shows "chdstream_load_hunk s h =
     (False, s\<lparr>chd := (chd s)\<lparr>read_calls := read_calls (chd s) @ [h]\<rparr>\<rparr>)"
  using assms by (auto simp: chdstream_load_hunk_def chd_read_def)

lemma load_hunk_True:
  assumes "chdstream_load_hunk s h = (True, s')"
  shows "hunknum s' = h"
    and "h = hunknum s \<Longrightarrow> s' = s"
    and "h \<noteq> hunknum s \<Longrightarrow> read_calls (chd s') = read_calls (chd s) @ [h]"
  using assms
  by (auto simp: chdstream_load_hunk_def chd_read_def split: if_splits option.splits)

lemma load_hunk_again:
  assumes "chdstream_load_hunk s h = (True, s')"
  shows "chdstream_load_hunk s' h = (True, s')"
  using load_hunk_True(1) [OF assms] load_hunk_hit [of s'] by simp

lemma read_chunk_Inr_data:
  assumes r: "read_chunk s e = Inr (t, bs)" and d: "\<not> offset s < track_start s"
  shows "\<exists>t0 src. chdstream_load_hunk s (hunk_of s (offset s)) = (True, t0)
           \<and> t = t0\<lparr>offset := offset t0 + ucast (chunk_amount s e)\<rparr>
           \<and> bs = take (length bs) (drop src (hunkmem t))"
proof -
  have fs: "frame_size s \<noteq> 0" using r by (auto simp: read_chunk_def)
  have fph: "frames_per_hunk s \<noteq> 0"
    using r d fs by (auto simp: read_chunk_def Let_def split: if_splits)
  obtain b t0 where l: "chdstream_load_hunk s (hunk_of s (offset s)) = (b, t0)"
    by (cases "chdstream_load_hunk s (hunk_of s (offset s))")
  show ?thesis
    using r l
    by (cases b) (auto simp: read_chunk_data [OF fs d fph] Let_def split: if_splits)
qed


text \<open>A loop whose chunks all lie in the cached hunk leaves the cache and the engine alone.\<close>

lemma read_loop_cached:
  assumes "read_loop s e out = Inr (s', out')" and "offset s \<le> e"
    and "track_start s \<le> offset s"
    and "\<forall>pos. offset s \<le> pos \<and> pos < e \<longrightarrow> hunk_of s pos = hunknum s"
  shows "s' = s\<lparr>offset := e\<rparr>"
  using assms
proof (induction s e out rule: read_loop.induct)
  case (1 s e out)
  show ?case
  proof (cases "offset s < e")
    case False
    then have "offset s = e" using "1.prems"(2) by simp
    then show ?thesis using "1.prems"(1) by (simp add: read_loop_done)
  next
    case True
    show ?thesis
    proof (cases "read_chunk s e")
      case (Inl c)
      then show ?thesis using "1.prems"(1) True by (simp add: read_loop_crash)
    next
      case (Inr p)
      obtain t bs where p: "p = (t, bs)" by (cases p)
      have r: "read_chunk s e = Inr (t, bs)" using Inr p by simp
      have loop: "read_loop t e (out @ bs) = Inr (s', out')"
        using "1.prems"(1) read_loop_step [OF True r] by simp
      note adv = read_chunk_advance [OF r True]
      have d: "\<not> offset s < track_start s" using "1.prems"(3) by (simp add: not_less)
      have h: "hunk_of s (offset s) = hunknum s" using "1.prems"(4) True by simp
      from read_chunk_Inr_data [OF r d] obtain t0 where
        l: "chdstream_load_hunk s (hunk_of s (offset s)) = (True, t0)"
        and t: "t = t0\<lparr>offset := offset t0 + ucast (chunk_amount s e)\<rparr>" by blast
      have "t0 = s" using load_hunk_True(2) [OF l] h by simp
      then have t': "t = s\<lparr>offset := offset t\<rparr>" using t by simp
      have le: "offset s \<le> offset t" using adv(1) by (simp add: word_le_nat_alt)
      have ho: "hunk_of t pos = hunk_of s pos" for pos
        by (subst t') (simp add: hunk_of_def)
      have hn: "hunknum t = hunknum s" by (subst t') simp
      have tst: "track_start t = track_start s" by (subst t') simp
      have "s' = t\<lparr>offset := e\<rparr>"
      proof (rule "1.IH" [OF True Inr p [symmetric] loop adv(3)])
        show "track_start t \<le> offset t" using "1.prems"(3) le tst by simp
        show "\<forall>pos. offset t \<le> pos \<and> pos < e \<longrightarrow> hunk_of t pos = hunknum t"
          using "1.prems"(4) le by (auto simp: ho hn)
      qed
      then show ?thesis by (subst (asm) t') simp
    qed
  qed
qed

text \<open>A loop whose chunks all lie in one hunk asks the engine for it at most once.\<close>

lemma read_loop_one_hunk:
  assumes loop: "read_loop s e out = Inr (s', out')" and lt: "offset s < e"
    and ts: "track_start s \<le> offset s"
    and pos: "\<forall>pos. offset s \<le> pos \<and> pos < e \<longrightarrow> hunk_of s pos = h"
  shows "hunknum s' = h"
    and "hunknum s = h \<Longrightarrow> chd s' = chd s \<and> hunkmem s' = hunkmem s"
    and "hunknum s \<noteq> h \<Longrightarrow> read_calls (chd s') = read_calls (chd s) @ [h]"
proof -
  obtain t bs where r: "read_chunk s e = Inr (t, bs)"
    using loop lt by (cases "read_chunk s e") (auto simp: read_loop_crash)
  have loop': "read_loop t e (out @ bs) = Inr (s', out')"
    using loop read_loop_step [OF lt r] by simp
  note adv = read_chunk_advance [OF r lt]
  have d: "\<not> offset s < track_start s" using ts by (simp add: not_less)
  have h: "hunk_of s (offset s) = h" using pos lt by simp
  from read_chunk_Inr_data [OF r d] h obtain t0 where
    l: "chdstream_load_hunk s h = (True, t0)"
    and t: "t = t0\<lparr>offset := offset t0 + ucast (chunk_amount s e)\<rparr>" by auto
  note lf = load_hunk_fields [OF l]
  have hn: "hunknum t = h" using load_hunk_True(1) [OF l] by (simp add: t)
  have le: "offset s \<le> offset t" using adv(1) by (simp add: word_le_nat_alt)
  have ho: "hunk_of t pos = hunk_of s pos" for pos
    using lf by (simp add: t hunk_of_def)
  have "s' = t\<lparr>offset := e\<rparr>"
  proof (rule read_loop_cached [OF loop' adv(3)])
    show "track_start t \<le> offset t" using ts le lf(6) by (simp add: t)
    show "\<forall>pos. offset t \<le> pos \<and> pos < e \<longrightarrow> hunk_of t pos = hunknum t"
      using pos le by (auto simp: ho hn)
  qed
  then have s': "s' = t0\<lparr>offset := e\<rparr>" by (simp add: t)
  show "hunknum s' = h" using load_hunk_True(1) [OF l] by (simp add: s')
  show "chd s' = chd s \<and> hunkmem s' = hunkmem s" if "hunknum s = h"
    using load_hunk_True(2) [OF l] that by (simp add: s')
  show "read_calls (chd s') = read_calls (chd s) @ [h]" if "hunknum s \<noteq> h"
    using load_hunk_True(3) [OF l] that by (simp add: s')
qed

lemma read_Inr_loop:
  assumes "chdstream_read s n = Inr (k, s', out)"
  shows "read_loop s (offset s + k) [] = Inr (s', out)"
  using assms by (auto simp: read_unfold split: sum.splits)

lemma two_reads_one_hunk:
  assumes ts: "track_start s \<le> offset s" and inv: "offset s \<le> track_end s"
    and r1: "chdstream_read s n1 = Inr (k1, s1, out1)" and k1: "k1 \<noteq> 0"
    and r2: "chdstream_read s1 n2 = Inr (k2, s2, out2)"
    and pos: "\<forall>pos. offset s \<le> pos \<and> pos < offset s + k1 + k2 \<longrightarrow> hunk_of s pos = h"
    and miss: "hunknum s \<noteq> h"
  shows "read_calls (chd s1) = read_calls (chd s) @ [h]"
    and "read_calls (chd s2) = read_calls (chd s1)" and "hunkmem s2 = hunkmem s1"
    and "hunknum s2 = h"
proof -
  note a = read_Inr [OF r1 inv]
  note e1 = read_end [OF inv, of n1]
  have loop1: "read_loop s (offset s + k1) [] = Inr (s1, out1)" using r1 by (rule read_Inr_loop)
  have u1: "unat (offset s + k1) = unat (offset s) + unat k1" using e1(1) a(1) by simp
  have "0 < unat k1" using k1 by (simp add: unat_gt_0)
  then have lt1: "offset s < offset s + k1" using u1 by (simp add: word_less_nat_alt)
  have le1: "offset s \<le> offset s + k1" using lt1 by simp
  have inv1: "offset s1 \<le> track_end s1" using a(3) .
  note b = read_Inr [OF r2 inv1]
  note e2 = read_end [OF inv1, of n2]
  have loop2: "read_loop s1 (offset s1 + k2) [] = Inr (s2, out2)" using r2 by (rule read_Inr_loop)
  have le2: "offset s1 \<le> offset s1 + k2" using e2(2) b(1) by simp
  have o1: "offset s1 = offset s + k1" using a(2) .
  note res1 = read_loop_result [OF loop1 le1]
  have ho: "hunk_of s1 pos = hunk_of s pos" for pos
    using res1 by (simp add: hunk_of_def)
  have pos1: "\<forall>pos. offset s \<le> pos \<and> pos < offset s + k1 \<longrightarrow> hunk_of s pos = h"
    using pos le2 o1 by auto
  note one = read_loop_one_hunk [OF loop1 lt1 ts pos1]
  show c1: "read_calls (chd s1) = read_calls (chd s) @ [h]" using one(3) miss by simp
  have "s2 = s1\<lparr>offset := offset s1 + k2\<rparr>"
  proof (rule read_loop_cached [OF loop2 le2])
    show "track_start s1 \<le> offset s1" using ts le1 a(4) o1 by simp
    show "\<forall>pos. offset s1 \<le> pos \<and> pos < offset s1 + k2 \<longrightarrow> hunk_of s1 pos = hunknum s1"
      using pos le1 o1 one(1) by (auto simp: ho)
  qed
  then show "read_calls (chd s2) = read_calls (chd s1)" and "hunkmem s2 = hunkmem s1"
    and "hunknum s2 = h" using one(1) by (metis chdstream.select_convs chdstream.surjective chdstream.update_convs(9))+
qed

text \<open>
  What \<^verbatim>\<open>chdstream_load_hunk\<close> does, by the number that the \<^verbatim>\<open>hunknum\<close> field holds. A
  request for that number succeeds and leaves the stream, with the trace of engine
  calls, as it was. For any other number the engine is called once; when it delivers a
  full hunk, the buffer holds that hunk, with the two bytes of every 16-bit word
  exchanged if the byte-swap flag is set, and the field holds the new number; when it
  fails, the load fails and field and buffer are unchanged. A load that has succeeded
  makes the next load of the same hunk a hit. The bytes that an iteration of the read
  loop copies are taken from the buffer as the load has left it, after the swap. Two
  consecutive reads in the data area whose bytes all lie in one hunk, of a number other
  than the one in the field, make exactly one engine call, in the first read; the second
  read leaves the buffer alone, so the hunk is swapped once.
\<close>

lemma hunk_cache_behaviour:
  "(hunk = hunknum stream \<longrightarrow> chdstream_load_hunk stream hunk = (True, stream))
   \<and> (hunk \<noteq> hunknum stream \<and> unat hunk < length (hunks (chd stream))
        \<and> hunks (chd stream) ! unat hunk = Some data
        \<and> length data = unat (hunkbytes (header (chd stream)))
      \<longrightarrow> chdstream_load_hunk stream hunk
            = (True, stream\<lparr>chd := (chd stream)\<lparr>read_calls := read_calls (chd stream) @ [hunk]\<rparr>,
                            hunkmem := (if swab stream then swab_bytes data else data),
                            hunknum := hunk\<rparr>)
          \<and> length (swab_bytes data) = length data
          \<and> (\<forall>i. 2 * i + 1 < length data
                \<longrightarrow> swab_bytes data ! (2 * i) = data ! (2 * i + 1)
                    \<and> swab_bytes data ! (2 * i + 1) = data ! (2 * i)))
   \<and> (hunk \<noteq> hunknum stream
        \<and> (length (hunks (chd stream)) \<le> unat hunk \<or> hunks (chd stream) ! unat hunk = None)
      \<longrightarrow> chdstream_load_hunk stream hunk
            = (False, stream\<lparr>chd := (chd stream)\<lparr>read_calls := read_calls (chd stream) @ [hunk]\<rparr>\<rparr>))
   \<and> (chdstream_load_hunk stream hunk = (True, stream')
      \<longrightarrow> chdstream_load_hunk stream' hunk = (True, stream'))
   \<and> (read_chunk stream e = Inr (stream', bytes) \<and> track_start stream \<le> offset stream
      \<longrightarrow> (\<exists>loaded src.
             chdstream_load_hunk stream (hunk_of stream (offset stream)) = (True, loaded)
             \<and> hunkmem stream' = hunkmem loaded
             \<and> bytes = take (length bytes) (drop src (hunkmem loaded))))
   \<and> (track_start stream \<le> offset stream \<and> offset stream \<le> track_end stream
        \<and> chdstream_read stream na = Inr (ka, sa, outa) \<and> ka \<noteq> 0
        \<and> chdstream_read sa nb = Inr (kb, sb, outb)
        \<and> (\<forall>pos. offset stream \<le> pos \<and> pos < offset stream + ka + kb
               \<longrightarrow> hunk_of stream pos = hunk)
        \<and> hunknum stream \<noteq> hunk
      \<longrightarrow> read_calls (chd sa) = read_calls (chd stream) @ [hunk]
          \<and> read_calls (chd sb) = read_calls (chd sa)
          \<and> hunkmem sb = hunkmem sa \<and> hunknum sb = hunk)"
proof -
  have c1: "chdstream_load_hunk stream hunk = (True, stream)" if "hunk = hunknum stream"
    using that load_hunk_hit [of stream] by simp
  have c2: "chdstream_load_hunk stream hunk
            = (True, stream\<lparr>chd := (chd stream)\<lparr>read_calls := read_calls (chd stream) @ [hunk]\<rparr>,
                            hunkmem := (if swab stream then swab_bytes data else data),
                            hunknum := hunk\<rparr>)
          \<and> length (swab_bytes data) = length data
          \<and> (\<forall>i. 2 * i + 1 < length data
                \<longrightarrow> swab_bytes data ! (2 * i) = data ! (2 * i + 1)
                    \<and> swab_bytes data ! (2 * i + 1) = data ! (2 * i))"
    if "hunk \<noteq> hunknum stream \<and> unat hunk < length (hunks (chd stream))
        \<and> hunks (chd stream) ! unat hunk = Some data
        \<and> length data = unat (hunkbytes (header (chd stream)))"
    using that load_hunk_miss [of hunk stream data] swab_bytes_nth [of _ data] by simp
  have c3: "chdstream_load_hunk stream hunk
            = (False, stream\<lparr>chd := (chd stream)\<lparr>read_calls := read_calls (chd stream) @ [hunk]\<rparr>\<rparr>)"
    if "hunk \<noteq> hunknum stream
        \<and> (length (hunks (chd stream)) \<le> unat hunk \<or> hunks (chd stream) ! unat hunk = None)"
    using that load_hunk_failure [of hunk stream] by simp
  have c4: "chdstream_load_hunk stream' hunk = (True, stream')"
    if "chdstream_load_hunk stream hunk = (True, stream')"
    using that by (rule load_hunk_again)
  have c5: "\<exists>loaded src.
             chdstream_load_hunk stream (hunk_of stream (offset stream)) = (True, loaded)
             \<and> hunkmem stream' = hunkmem loaded
             \<and> bytes = take (length bytes) (drop src (hunkmem loaded))"
    if "read_chunk stream e = Inr (stream', bytes) \<and> track_start stream \<le> offset stream"
  proof -
    have r: "read_chunk stream e = Inr (stream', bytes)"
      and d: "\<not> offset stream < track_start stream" using that by (simp_all add: not_less)
    from read_chunk_Inr_data [OF r d] obtain t0 src where
      "chdstream_load_hunk stream (hunk_of stream (offset stream)) = (True, t0)"
      and "stream' = t0\<lparr>offset := offset t0 + ucast (chunk_amount stream e)\<rparr>"
      and "bytes = take (length bytes) (drop src (hunkmem stream'))" by blast
    then show ?thesis by auto
  qed
  have c6: "read_calls (chd sa) = read_calls (chd stream) @ [hunk]
          \<and> read_calls (chd sb) = read_calls (chd sa)
          \<and> hunkmem sb = hunkmem sa \<and> hunknum sb = hunk"
    if "track_start stream \<le> offset stream \<and> offset stream \<le> track_end stream
        \<and> chdstream_read stream na = Inr (ka, sa, outa) \<and> ka \<noteq> 0
        \<and> chdstream_read sa nb = Inr (kb, sb, outb)
        \<and> (\<forall>pos. offset stream \<le> pos \<and> pos < offset stream + ka + kb
               \<longrightarrow> hunk_of stream pos = hunk)
        \<and> hunknum stream \<noteq> hunk"
    using that two_reads_one_hunk [of stream na ka sa outa nb kb sb outb hunk] by blast
  show ?thesis
    using c1 c2 c3 c4 c5 c6 by blast
qed

text \<open>The first data frame of the example stream lies in hunk 0.\<close>

lemma ex_swab_positions:
  "\<forall>pos. offset ex_swab_stream \<le> pos \<and> pos < offset ex_swab_stream + 2 + 2
      \<longrightarrow> hunk_of ex_swab_stream pos = 0"
proof (intro allI impI)
  fix pos :: size_t
  assume "offset ex_swab_stream \<le> pos \<and> pos < offset ex_swab_stream + 2 + 2"
  then have a: "4 \<le> pos \<and> pos < 8" by (simp add: ex_swab_stream_def)
  then have "unat (pos - 4) = unat pos - 4" by (simp add: unat_sub)
  moreover have "unat pos < 8" using a by (simp add: word_less_nat_alt)
  ultimately have "pos - 4 < 4" by (simp add: word_less_nat_alt)
  then have "(pos - 4) div 4 = 0" by (rule div_word_less)
  then show "hunk_of ex_swab_stream pos = 0"
    by (simp add: hunk_of_def ex_swab_stream_def ex_stream_def)
qed

text \<open>
  On the example stream as an audio track: a hit, a miss that loads and swaps hunk 0, a
  miss on the hunk that cannot be decompressed, and two reads of two bytes in the first
  data frame, which make one engine call between them.
\<close>

lemma hunk_cache_example:
  "chdstream_load_hunk (ex_swab_stream\<lparr>hunknum := 0\<rparr>) 0 = (True, ex_swab_stream\<lparr>hunknum := 0\<rparr>)
   \<and> 0 \<noteq> hunknum ex_swab_stream
   \<and> hunks (chd ex_swab_stream) ! unat (0 :: uint32_t)
        = Some [0x11, 0x12, 0x13, 0x14, 0x15, 0x16, 0x17, 0x18]
   \<and> chdstream_load_hunk ex_swab_stream 0
        = (True, ex_swab_stream\<lparr>chd := ex_chd\<lparr>read_calls := [0]\<rparr>,
             hunkmem := [0x12, 0x11, 0x14, 0x13, 0x16, 0x15, 0x18, 0x17], hunknum := 0\<rparr>)
   \<and> 1 \<noteq> hunknum ex_swab_stream \<and> hunks (chd ex_swab_stream) ! unat (1 :: uint32_t) = None
   \<and> chdstream_load_hunk ex_swab_stream 1
        = (False, ex_swab_stream\<lparr>chd := ex_chd\<lparr>read_calls := [1]\<rparr>\<rparr>)
   \<and> track_start ex_swab_stream \<le> offset ex_swab_stream
   \<and> offset ex_swab_stream \<le> track_end ex_swab_stream
   \<and> chdstream_read ex_swab_stream 2
        = Inr (2, ex_swab_stream\<lparr>chd := ex_chd\<lparr>read_calls := [0]\<rparr>, offset := 6, hunknum := 0,
                   hunkmem := [0x12, 0x11, 0x14, 0x13, 0x16, 0x15, 0x18, 0x17]\<rparr>,
               [0x12, 0x11])
   \<and> chdstream_read (ex_swab_stream\<lparr>chd := ex_chd\<lparr>read_calls := [0]\<rparr>, offset := 6, hunknum := 0,
                   hunkmem := [0x12, 0x11, 0x14, 0x13, 0x16, 0x15, 0x18, 0x17]\<rparr>) 2
        = Inr (2, ex_swab_stream\<lparr>chd := ex_chd\<lparr>read_calls := [0]\<rparr>, offset := 8, hunknum := 0,
                   hunkmem := [0x12, 0x11, 0x14, 0x13, 0x16, 0x15, 0x18, 0x17]\<rparr>,
               [0x14, 0x13])
   \<and> read_calls (chd (ex_swab_stream\<lparr>chd := ex_chd\<lparr>read_calls := [0]\<rparr>, offset := 8,
          hunknum := 0, hunkmem := [0x12, 0x11, 0x14, 0x13, 0x16, 0x15, 0x18, 0x17]\<rparr>))
        = read_calls (chd ex_swab_stream) @ [0]"
proof -
  let ?d = "[0x11, 0x12, 0x13, 0x14, 0x15, 0x16, 0x17, 0x18] :: uint8_t list"
  let ?m = "[0x12, 0x11, 0x14, 0x13, 0x16, 0x15, 0x18, 0x17] :: uint8_t list"
  let ?s1 = "ex_swab_stream\<lparr>chd := ex_chd\<lparr>read_calls := [0]\<rparr>, offset := 6, hunknum := 0,
                   hunkmem := ?m\<rparr>"
  let ?s2 = "ex_swab_stream\<lparr>chd := ex_chd\<lparr>read_calls := [0]\<rparr>, offset := 8, hunknum := 0,
                   hunkmem := ?m\<rparr>"
  have hit: "chdstream_load_hunk (ex_swab_stream\<lparr>hunknum := 0\<rparr>) 0
      = (True, ex_swab_stream\<lparr>hunknum := 0\<rparr>)"
    using hunk_cache_behaviour [where hunk = 0 and stream = "ex_swab_stream\<lparr>hunknum := 0\<rparr>"]
    by simp
  have f: "0 \<noteq> hunknum ex_swab_stream" "unat (0 :: uint32_t) < length (hunks (chd ex_swab_stream))"
    "hunks (chd ex_swab_stream) ! unat (0 :: uint32_t) = Some ?d"
    "length ?d = unat (hunkbytes (header (chd ex_swab_stream)))"
    "swab ex_swab_stream" "chd ex_swab_stream = ex_chd" "read_calls ex_chd = []"
    "1 \<noteq> hunknum ex_swab_stream" "hunks (chd ex_swab_stream) ! unat (1 :: uint32_t) = None"
    "track_start ex_swab_stream \<le> offset ex_swab_stream"
    "offset ex_swab_stream \<le> track_end ex_swab_stream"
    by (simp_all add: ex_swab_stream_def ex_stream_def ex_chd_def)
  have sw: "swab_bytes ?d = ?m" by simp
  have miss: "chdstream_load_hunk ex_swab_stream 0
      = (True, ex_swab_stream\<lparr>chd := ex_chd\<lparr>read_calls := [0]\<rparr>, hunkmem := ?m, hunknum := 0\<rparr>)"
    using hunk_cache_behaviour [where hunk = 0 and stream = ex_swab_stream and data = ?d] f(1-4)
    by (simp add: f(5-7) sw)
  have fail: "chdstream_load_hunk ex_swab_stream 1
      = (False, ex_swab_stream\<lparr>chd := ex_chd\<lparr>read_calls := [1]\<rparr>\<rparr>)"
    using hunk_cache_behaviour [where hunk = 1 and stream = ex_swab_stream] f(8,9)
    by (simp add: f(6,7))
  have r1: "chdstream_read ex_swab_stream 2 = Inr (2, ?s1, [0x12, 0x11])"
    by code_simp
  have r2: "chdstream_read ?s1 2 = Inr (2, ?s2, [0x14, 0x13])"
    by code_simp
  have calls: "read_calls (chd ?s2) = read_calls (chd ex_swab_stream) @ [0]"
    using hunk_cache_behaviour [where hunk = 0 and stream = ex_swab_stream and na = 2 and ka = 2
        and sa = ?s1 and outa = "[0x12, 0x11]" and nb = 2 and kb = 2 and sb = ?s2
        and outb = "[0x14, 0x13]"]
      f(1,10,11) r1 r2 ex_swab_positions
    by simp
  show ?thesis
    using hit f(1,3) miss f(8,9) fail f(10,11) r1 r2 calls by (intro conjI)
qed

section \<open>The empty cache\<close>

lemma far_find:
  "chdstream_find_track fuel ex_far_chd 2 =
     Some (True, \<lparr>type = ''MODE1'', subtype = ''NONE'', pgtype = ''MODE1'', pgsub = ''NONE'',
       frame_offset = 0xFFFFFFFC, frames = 4, pad = 0, extra = 0, pregap = 0, postgap = 0,
       track = 2\<rparr>)"
  by (simp add: lookup_defs find_track_number_loop.simps ex_far_chd_def cd_track_def Let_def)

lemma far_open:
  "chdstream_open fuel (Some ex_far_chd) 2 True (Some (\<lambda>_. 0xAA)) = Some (Opened ex_far_stream)"
proof -
  have "[0..<4] = [0, 1, 2, Suc 2]" by (simp add: upt_rec)
  then show ?thesis
    unfolding open_unfold far_find
    by (simp add: track_frame_size_def counted_pregap_def ex_far_stream_def ex_far_chd_def)
qed

lemma far_seek: "chdstream_seek ex_far_stream 12 SEEK_SET = (0, ex_far_stream\<lparr>offset := 12\<rparr>)"
  by code_simp

lemma far_hunk_last: "hunk_of ex_far_stream 12 = 0xFFFFFFFF"
  by (simp add: hunk_of_def ex_far_stream_def)

lemma far_engine:
  "chd_read (chd ex_far_stream) 0xFFFFFFFF (hunkmem ex_far_stream)
     = (ex_far_chd\<lparr>read_calls := [0xFFFFFFFF]\<rparr>, None)"
  by (simp add: chd_read_def ex_far_stream_def ex_far_chd_def)

lemma far_load_last:
  "chdstream_load_hunk (ex_far_stream\<lparr>offset := 12\<rparr>) 0xFFFFFFFF
     = (True, ex_far_stream\<lparr>offset := 12\<rparr>)"
  by (simp add: chdstream_load_hunk_def ex_far_stream_def)

lemma far_chunk_last:
  "read_chunk (ex_far_stream\<lparr>offset := 12\<rparr>) 16
     = Inr (ex_far_stream\<lparr>offset := 16\<rparr>, [0xAA, 0xAA, 0xAA, 0xAA])"
  by (simp add: read_chunk_def chdstream_load_hunk_def ex_far_stream_def ex_far_chd_def
        chd_get_header_def Let_def)

lemma far_read_last:
  "chdstream_read (ex_far_stream\<lparr>offset := 12\<rparr>) 4
     = Inr (4, ex_far_stream\<lparr>offset := 16\<rparr>, [0xAA, 0xAA, 0xAA, 0xAA])"
proof -
  have "read_loop (ex_far_stream\<lparr>offset := 12\<rparr>) 16 []
      = Inr (ex_far_stream\<lparr>offset := 16\<rparr>, [0xAA, 0xAA, 0xAA, 0xAA])"
    using read_loop_step [of "ex_far_stream\<lparr>offset := 12\<rparr>" 16, OF _ far_chunk_last, of "[]"]
      read_loop_done [of "ex_far_stream\<lparr>offset := 16\<rparr>" 16]
    by (simp add: ex_far_stream_def)
  then show ?thesis
    by (simp add: read_unfold ex_far_stream_def)
qed

lemma far_hunk_third: "hunk_of ex_far_stream 8 = 0xFFFFFFFE"
  by (simp add: hunk_of_def ex_far_stream_def)

lemma far_load_third:
  "chdstream_load_hunk (ex_far_stream\<lparr>offset := 8\<rparr>) 0xFFFFFFFE
     = (False, ex_far_stream\<lparr>chd := ex_far_chd\<lparr>read_calls := [0xFFFFFFFE]\<rparr>, offset := 8\<rparr>)"
  by (simp add: chdstream_load_hunk_def chd_read_def ex_far_stream_def ex_far_chd_def)

lemma far_chunk_third: "read_chunk (ex_far_stream\<lparr>offset := 8\<rparr>) 12 = Inl Aborted"
  by (simp add: read_chunk_def chdstream_load_hunk_def chd_read_def ex_far_stream_def
        ex_far_chd_def chd_get_header_def Let_def)

lemma far_read_third: "chdstream_read (ex_far_stream\<lparr>offset := 8\<rparr>) 4 = Inl Aborted"
proof -
  have "read_loop (ex_far_stream\<lparr>offset := 8\<rparr>) 12 [] = Inl Aborted"
    using read_loop_crash [of "ex_far_stream\<lparr>offset := 8\<rparr>" 12, OF _ far_chunk_third, of "[]"]
    by (simp add: ex_far_stream_def)
  then show ?thesis
    by (simp add: read_unfold ex_far_stream_def)
qed

text \<open>
  Claim C8. A request for a hunk that the cache does not hold should load the full hunk
  from the storage engine, and a load that fails should leave the cache as it was and
  report the error. \<^verbatim>\<open>chdstream_open\<close> marks the empty cache with \<^verbatim>\<open>hunknum = -1\<close>, and
  \<^verbatim>\<open>chdstream_load_hunk\<close> compares its \<^verbatim>\<open>uint32_t\<close> argument with that field, so that
  a stream that has loaded nothing takes a request for hunk \<open>0xFFFFFFFF\<close> for a hit. On
  the track that starts at frame \<open>0xFFFFFFFC\<close>, opened and moved to offset 12 without any
  engine call, the last frame lies in hunk \<open>0xFFFFFFFF\<close>: the load succeeds with no call
  of the engine, which would have refused that hunk, and the read returns the four bytes
  that \<^verbatim>\<open>malloc\<close> left in the buffer. One frame before, in hunk \<open>0xFFFFFFFE\<close>, the same
  stream calls the engine, and the failure ends the read.
\<close>

theorem fresh_cache_serves_unloaded_hunk:
  "chdstream_open 0 (Some ex_far_chd) 2 True (Some (\<lambda>_. 0xAA)) = Some (Opened ex_far_stream)
   \<and> read_calls (chd ex_far_stream) = []
   \<and> chdstream_seek ex_far_stream 12 SEEK_SET = (0, ex_far_stream\<lparr>offset := 12\<rparr>)
   \<and> hunk_of ex_far_stream 12 = 0xFFFFFFFF
   \<and> chd_read (chd ex_far_stream) 0xFFFFFFFF (hunkmem ex_far_stream)
        = (ex_far_chd\<lparr>read_calls := [0xFFFFFFFF]\<rparr>, None)
   \<and> chdstream_load_hunk (ex_far_stream\<lparr>offset := 12\<rparr>) 0xFFFFFFFF
        = (True, ex_far_stream\<lparr>offset := 12\<rparr>)
   \<and> chdstream_read (ex_far_stream\<lparr>offset := 12\<rparr>) 4
        = Inr (4, ex_far_stream\<lparr>offset := 16\<rparr>, [0xAA, 0xAA, 0xAA, 0xAA])
   \<and> hunk_of ex_far_stream 8 = 0xFFFFFFFE
   \<and> chdstream_load_hunk (ex_far_stream\<lparr>offset := 8\<rparr>) 0xFFFFFFFE
        = (False, ex_far_stream\<lparr>chd := ex_far_chd\<lparr>read_calls := [0xFFFFFFFE]\<rparr>, offset := 8\<rparr>)
   \<and> chdstream_read (ex_far_stream\<lparr>offset := 8\<rparr>) 4 = Inl Aborted"
proof -
  have "read_calls (chd ex_far_stream) = []"
    by (simp add: ex_far_stream_def ex_far_chd_def)
  then show ?thesis
    using far_open [of 0] far_seek far_hunk_last far_engine far_load_last far_read_last
      far_hunk_third far_load_third far_read_third
    by (intro conjI)
qed

section \<open>The bytes of a track\<close>

subsection \<open>The first frame of a track\<close>










subsection \<open>What the hunk buffer holds\<close>

text \<open>
  A load that succeeds leaves in the buffer the hunk of the container as the track
  presents it, unless the cache was empty and the request was for the number that marks
  it so. From then on every iteration of the read loop copies the bytes of the track.
\<close>

lemma cache_loaded_offset [simp]: "cache_loaded (s\<lparr>offset := x\<rparr>) = cache_loaded s"
  by (simp add: cache_loaded_def hunk_image_def split: option.splits)

lemma cache_ok_offset [simp]: "cache_ok (s\<lparr>offset := x\<rparr>) = cache_ok s"
  by (simp add: cache_ok_def)

lemma hunk_image_fields:
  assumes "swab t = swab s" and "hunks (chd t) = hunks (chd s)"
  shows "hunk_image t h = hunk_image s h"
  using assms by (cases "hunks (chd s) ! unat h") (simp_all add: hunk_image_def)

lemma track_byte_fields:
  assumes "track_frame t = track_frame s" and "track_start t = track_start s"
    and "frame_size t = frame_size s" and "frames_per_hunk t = frames_per_hunk s"
    and "frame_offset t = frame_offset s" and "swab t = swab s"
    and "header (chd t) = header (chd s)" and "hunks (chd t) = hunks (chd s)"
  shows "track_byte t pos = track_byte s pos"
proof -
  have "hunk_image t = hunk_image s"
    using assms(6,8) by (intro ext hunk_image_fields)
  then show ?thesis
    using assms by (simp add: track_byte_def chd_get_header_def)
qed










subsection \<open>Reading across the pregap\<close>

text \<open>
  A read that starts at or below the start of the data reaches the data at its first
  byte, whose hunk it loads, and delivers the bytes of the track from there on.
\<close>

lemma hunk_of_offset [simp]: "hunk_of (s\<lparr>offset := x\<rparr>) pos = hunk_of s pos"
  by (simp add: hunk_of_def)

lemma track_byte_offset [simp]: "track_byte (s\<lparr>offset := x\<rparr>) pos = track_byte s pos"
  by (intro track_byte_fields) simp_all












end
